theory Spec2Isabelle
  imports Complex_Main "HOL-Library.Log_Nat"
begin

section \<open>Python values, records and exceptions\<close>

text \<open>
  The program is \<^verbatim>\<open>proxy_manager.py\<close>: three asyncio loops (fetch, cleanup, stability
  monitor) over two collections of a remote JSON store.

  The records of both collections are Python dicts obtained from JSON. A field value is
  \<^verbatim>\<open>None\<close>, a string or a number. A number, an int or a float of Python, stands for
  its exact value, which is what Python compares and hashes; infinities and NaN, which
  no JSON document of the store holds, are left out. A character stands for a code point
  below 256.
\<close>

datatype pyval = PNone | PStr string | PNum real

type_synonym pydict = "(string \<times> pyval) list"

text \<open>\<^verbatim>\<open>d.get(k)\<close> and \<^verbatim>\<open>d.get(k, default)\<close>.\<close>

definition dict_get :: "pydict \<Rightarrow> string \<Rightarrow> pyval" where
  "dict_get d k = (case map_of d k of None \<Rightarrow> PNone | Some v \<Rightarrow> v)"

definition dict_get_default :: "pydict \<Rightarrow> string \<Rightarrow> pyval \<Rightarrow> pyval" where
  "dict_get_default d k dflt = (case map_of d k of None \<Rightarrow> dflt | Some v \<Rightarrow> v)"

text \<open>Truth value of a Python object, as \<^verbatim>\<open>if x:\<close> tests it.\<close>

fun truthy :: "pyval \<Rightarrow> bool" where
  "truthy PNone = False"
| "truthy (PStr s) = (s \<noteq> [])"
| "truthy (PNum r) = (r \<noteq> 0)"

text \<open>
  The exceptions the program can meet, all of them subclasses of \<^verbatim>\<open>Exception\<close>: a
  transport error or a timeout of the HTTP client, a body that is not JSON, the
  \<^verbatim>\<open>TypeError\<close> of an arithmetic operation on a value that is not a number, and the
  \<^verbatim>\<open>OverflowError\<close> of an int too large to become a float.
\<close>

datatype py_exception = ClientError | TimeoutError | JSONDecodeError | TypeError | OverflowError

text \<open>
  A computation that may raise after it has changed the state returns the state it
  reached together with the exception; \<open>state_of\<close> is the state it ended in, whether
  it returned or raised.
\<close>

datatype 's outcome = Normal 's | Raised py_exception 's

fun state_of :: "'s outcome \<Rightarrow> 's" where
  "state_of (Normal s) = s"
| "state_of (Raised x s) = s"

text \<open>
  A float is an IEEE 754 binary64 number. \<open>nearest_double x\<close> is the float nearest to
  \<open>x\<close>, ties going to the even significand: 53 significant bits, the exponent of the
  last one not below \<open>-1074\<close>. A result of \<open>2 ^ 1024\<close> or more in size is out of the
  range of the floats.
\<close>

definition round_half_even :: "real \<Rightarrow> int" where
  "round_half_even q =
     (if q - of_int \<lfloor>q\<rfloor> < 1 / 2 then \<lfloor>q\<rfloor>
      else if 1 / 2 < q - of_int \<lfloor>q\<rfloor> then \<lfloor>q\<rfloor> + 1
      else if even \<lfloor>q\<rfloor> then \<lfloor>q\<rfloor> else \<lfloor>q\<rfloor> + 1)"

definition nearest_double :: "real \<Rightarrow> real" where
  "nearest_double x =
     (if x = 0 then 0
      else of_int (round_half_even (x / 2 powr (of_int (max \<lfloor>log 2 \<bar>x\<bar>\<rfloor> (- 1022)) - 52)))
             * 2 powr (of_int (max \<lfloor>log 2 \<bar>x\<bar>\<rfloor> (- 1022)) - 52))"

text \<open>
  \<^verbatim>\<open>float - value\<close>, defined on numbers only. The left operand is a reading of the
  clock, a float; the right operand is a float or an int. An int is converted to the
  nearest float first, which raises when that is out of range (no float is that large,
  so such a number is an int), and the difference of the two floats is rounded to the
  nearest float. A number that is no float is taken at its nearest float, which leaves
  a float as it is; nothing is raised when the left operand itself is out of range,
  which no reading of the clock is. For a reading below \<open>2 ^ 970\<close> in size, as every
  time of day is, the difference is in range as well; beyond that size it could be an
  infinity in Python, which the model does not have.
\<close>

fun py_sub :: "real \<Rightarrow> pyval \<Rightarrow> py_exception + real" where
  "py_sub x (PNum y) =
     (if 2 ^ 1024 \<le> \<bar>nearest_double y\<bar> \<and> \<bar>nearest_double x\<bar> < 2 ^ 1024
      then Inl OverflowError
      else Inr (nearest_double (nearest_double x - nearest_double y)))"
| "py_sub x PNone = Inl TypeError"
| "py_sub x (PStr s) = Inl TypeError"

text \<open>
  \<^verbatim>\<open>str.strip()\<close> removes leading and trailing whitespace, \<^verbatim>\<open>str.split('\n')\<close> cuts at
  every line feed (and returns one empty string for the empty string).
\<close>

definition py_isspace :: "char \<Rightarrow> bool" where
  "py_isspace c = ((of_char c :: nat) \<in> {9, 10, 11, 12, 13, 28, 29, 30, 31, 32, 133, 160})"

definition py_strip :: "string \<Rightarrow> string" where
  "py_strip s = rev (dropWhile py_isspace (rev (dropWhile py_isspace s)))"

fun py_split :: "char \<Rightarrow> string \<Rightarrow> string list" where
  "py_split sep [] = [[]]"
| "py_split sep (c # cs) =
     (if c = sep then [] # py_split sep cs
      else (case py_split sep cs of
              [] \<Rightarrow> [[c]]
            | w # ws \<Rightarrow> (c # w) # ws))"

section \<open>Configuration\<close>

definition CONCURRENCY_LIMIT :: nat where
  "CONCURRENCY_LIMIT = 200"

definition STABILITY_THRESHOLD :: real where
  "STABILITY_THRESHOLD = 600"

section \<open>The remote store, the network and the clock\<close>

text \<open>
  \<^verbatim>\<open>FIREBASE_BASE_URL\<close> is the working collection, \<^verbatim>\<open>STABLE_PROXIES_URL\<close> the stable
  one. A collection is a JSON object from keys to records, kept in document order.
\<close>

datatype collection = Working | Stable

datatype request =
    Get_source
  | Get_json collection
  | Get_via pyval
  | Post collection pydict
  | Delete collection string

text \<open>
  The world is what the program acts on: the two collections, the requests sent so far,
  and the number of times \<^verbatim>\<open>time.time()\<close> has been read.
\<close>

record world =
  working :: "(string \<times> pydict) list"
  stable :: "(string \<times> pydict) list"
  sent :: "request list"
  ticks :: nat

text \<open>
  The environment fixes, for one cycle, everything the program does not decide: the
  readings of the clock; what the bulk source answers (the \<^verbatim>\<open>session.get\<close> raises, or
  there is a status and a text, whose reading may raise); whether a read of a collection
  raises, and otherwise its status and whether decoding its body raises; the status (or
  exception) of a request sent through a proxy, of a POST and of a DELETE. Within one
  cycle a request gets the same answer each time it is sent.
\<close>

record env =
  clock :: "nat \<Rightarrow> real"
  source_reply :: "py_exception + nat \<times> (py_exception + string)"
  read_reply :: "collection \<Rightarrow> py_exception + nat \<times> py_exception option"
  probe_reply :: "pyval \<Rightarrow> py_exception + nat"
  post_reply :: "collection \<Rightarrow> pydict \<Rightarrow> py_exception + nat"
  delete_reply :: "collection \<Rightarrow> string \<Rightarrow> py_exception + nat"

datatype 'a response = Response (status: nat) (body: "py_exception + 'a")

definition contents :: "world \<Rightarrow> collection \<Rightarrow> (string \<times> pydict) list" where
  "contents w c = (case c of Working \<Rightarrow> working w | Stable \<Rightarrow> stable w)"

definition set_contents :: "collection \<Rightarrow> (string \<times> pydict) list \<Rightarrow> world \<Rightarrow> world" where
  "set_contents c xs w = (case c of Working \<Rightarrow> w\<lparr>working := xs\<rparr> | Stable \<Rightarrow> w\<lparr>stable := xs\<rparr>)"

definition sending :: "request \<Rightarrow> world \<Rightarrow> world" where
  "sending r w = w\<lparr>sent := sent w @ [r]\<rparr>"

text \<open>\<^verbatim>\<open>time.time()\<close>: the next reading of the clock.\<close>

definition time_time :: "env \<Rightarrow> world \<Rightarrow> real \<times> world" where
  "time_time e w = (clock e (ticks w), w\<lparr>ticks := Suc (ticks w)\<rparr>)"

text \<open>
  The store is not part of the repository. It is taken to serve a read with the present
  contents of the collection, and to carry out a write exactly when it answers 200: a
  POST appends the record under a key no record of the collection has, a DELETE removes
  the key.
\<close>

definition fresh_key :: "(string \<times> pydict) list \<Rightarrow> string" where
  "fresh_key xs = replicate (Suc (foldr max (map (\<lambda>(k, v). length k) xs) 0)) (CHR ''-'')"

definition store_read ::
  "env \<Rightarrow> collection \<Rightarrow> world \<Rightarrow> py_exception + (string \<times> pydict) list response" where
  "store_read e c w =
     (case read_reply e c of
        Inl x \<Rightarrow> Inl x
      | Inr (s, None) \<Rightarrow> Inr (Response s (Inr (contents w c)))
      | Inr (s, Some x) \<Rightarrow> Inr (Response s (Inl x)))"

definition store_post :: "env \<Rightarrow> collection \<Rightarrow> pydict \<Rightarrow> world \<Rightarrow> world" where
  "store_post e c d w =
     (if post_reply e c d = Inr 200
      then set_contents c (contents w c @ [(fresh_key (contents w c), d)]) w
      else w)"

definition store_delete :: "env \<Rightarrow> collection \<Rightarrow> string \<Rightarrow> world \<Rightarrow> world" where
  "store_delete e c k w =
     (if delete_reply e c k = Inr 200
      then set_contents c (filter (\<lambda>(k', v). k' \<noteq> k) (contents w c)) w
      else w)"

text \<open>
  \<^verbatim>\<open>session.get(f"{url}.json")\<close>, \<^verbatim>\<open>session.post(f"{url}.json", json=d)\<close> and
  \<^verbatim>\<open>session.delete(f"{url}/{key}.json")\<close>: what the caller gets, and the world after.
\<close>

definition http_get_json ::
  "env \<Rightarrow> collection \<Rightarrow> world \<Rightarrow> (py_exception + (string \<times> pydict) list response) \<times> world" where
  "http_get_json e c w = (store_read e c w, sending (Get_json c) w)"

definition http_post :: "env \<Rightarrow> collection \<Rightarrow> pydict \<Rightarrow> world \<Rightarrow> (py_exception + nat) \<times> world" where
  "http_post e c d w = (post_reply e c d, store_post e c d (sending (Post c d) w))"

definition http_delete :: "env \<Rightarrow> collection \<Rightarrow> string \<Rightarrow> world \<Rightarrow> (py_exception + nat) \<times> world" where
  "http_delete e c k w = (delete_reply e c k, store_delete e c k (sending (Delete c k) w))"

section \<open>The liveness probe and the read of the known addresses\<close>

text \<open>
  \<^verbatim>\<open>is_proxy_alive\<close>: one GET of the check URL through the proxy; status 200 is alive,
  and the bare \<^verbatim>\<open>except\<close> turns every exception into \<^verbatim>\<open>False\<close>.
\<close>

definition is_proxy_alive :: "env \<Rightarrow> pyval \<Rightarrow> bool" where
  "is_proxy_alive e proxy_addr =
     (case probe_reply e proxy_addr of
        Inr s \<Rightarrow> s = 200
      | Inl x \<Rightarrow> False)"

text \<open>
  \<^verbatim>\<open>get_existing_proxies\<close>, as a function of what the GET produced: the set of the truthy
  \<^verbatim>\<open>address\<close> values of a 200 response with data, and the empty set otherwise, also
  when the GET or the decoding raised.
\<close>

definition existing_of :: "py_exception + (string \<times> pydict) list response \<Rightarrow> pyval set" where
  "existing_of r =
     (case r of
        Inl x \<Rightarrow> {}
      | Inr resp \<Rightarrow>
          if status resp = 200 then
            (case body resp of
               Inl x \<Rightarrow> {}
             | Inr data \<Rightarrow>
                 if data \<noteq> []
                 then set (filter truthy (map (\<lambda>(k, val). dict_get val ''address'') data))
                 else {})
          else {})"

definition get_existing_proxies :: "env \<Rightarrow> collection \<Rightarrow> world \<Rightarrow> pyval set \<times> world" where
  "get_existing_proxies e c w = (case http_get_json e c w of (r, w') \<Rightarrow> (existing_of r, w'))"

section \<open>Tasks run by \<^verbatim>\<open>asyncio.gather\<close>\<close>

text \<open>
  A coroutine runs without interruption from one \<^verbatim>\<open>await\<close> that suspends to the next,
  so a task is a small state machine whose steps are the pieces of its body between the
  network calls. The tasks of one \<^verbatim>\<open>gather\<close> share the semaphore (the number of permits
  in use), the world, and for the fetch loop the set \<^verbatim>\<open>existing_proxies\<close>. The
  \<^verbatim>\<open>asyncio.Lock\<close> of the fetch loop is taken and released inside one step each time (no
  \<^verbatim>\<open>await\<close> lies between), so it is free whenever a task is resumed and has no field.
  Logging is not modelled.
\<close>

record 'm shared =
  mem :: 'm
  in_flight :: nat
  world :: world

definition release :: "'m shared \<Rightarrow> 'm shared" where
  "release s = s\<lparr>in_flight := in_flight s - 1\<rparr>"

text \<open>
  A schedule names the task the event loop resumes next. Resuming a task that has
  finished, that waits for a permit, or that does not exist changes nothing.
  \<^verbatim>\<open>gather\<close> returns when every task has finished: after the schedule the tasks that
  hold a permit are run to their end, then the others, each in at most three steps.
\<close>

definition resume ::
  "('t \<times> 'm shared \<Rightarrow> 't \<times> 'm shared) \<Rightarrow> nat \<Rightarrow> 't list \<times> 'm shared \<Rightarrow> 't list \<times> 'm shared" where
  "resume step i p =
     (case p of (ts, s) \<Rightarrow>
        if i < length ts
        then (case step (ts ! i, s) of (t', s') \<Rightarrow> (ts[i := t'], s'))
        else (ts, s))"

definition finish ::
  "('t \<times> 'm shared \<Rightarrow> 't \<times> 'm shared) \<Rightarrow> nat \<Rightarrow> 't list \<times> 'm shared \<Rightarrow> 't list \<times> 'm shared" where
  "finish step i p = resume step i (resume step i (resume step i p))"

definition finish_started ::
  "('t \<times> 'm shared \<Rightarrow> 't \<times> 'm shared) \<Rightarrow> ('t \<Rightarrow> bool) \<Rightarrow> nat \<Rightarrow> 't list \<times> 'm shared \<Rightarrow> 't list \<times> 'm shared" where
  "finish_started step waiting i p =
     (if i < length (fst p) \<and> waiting (fst p ! i) then p else finish step i p)"

definition gather ::
  "('t \<times> 'm shared \<Rightarrow> 't \<times> 'm shared) \<Rightarrow> ('t \<Rightarrow> bool) \<Rightarrow> nat list \<Rightarrow> 't list \<times> 'm shared \<Rightarrow> 't list \<times> 'm shared" where
  "gather step waiting sched p =
     (let p1 = fold (resume step) sched p;
          p2 = fold (finish_started step waiting) [0..<length (fst p1)] p1
      in fold (finish step) [0..<length (fst p2)] p2)"

section \<open>The fetch loop\<close>

definition proxy_data :: "string \<Rightarrow> real \<Rightarrow> real \<Rightarrow> pydict" where
  "proxy_data proxy_addr t1 t2 =
     [(''address'', PStr proxy_addr),
      (''last_checked'', PNum t1),
      (''created_at'', PNum t2),
      (''status'', PStr ''active'')]"

text \<open>
  \<^verbatim>\<open>validate_and_add\<close> when nothing else runs between its steps. The two timestamps
  are two calls of \<^verbatim>\<open>time.time()\<close>, \<^verbatim>\<open>last_checked\<close> first.
\<close>

definition validate_and_add :: "env \<Rightarrow> string \<Rightarrow> pyval set \<times> world \<Rightarrow> pyval set \<times> world" where
  "validate_and_add e raw p =
     (case p of (existing_proxies, w) \<Rightarrow>
        let proxy_addr = py_strip raw in
        if proxy_addr = [] then (existing_proxies, w)
        else if PStr proxy_addr \<in> existing_proxies then (existing_proxies, w)
        else
          let w1 = sending (Get_via (PStr proxy_addr)) w in
          if is_proxy_alive e (PStr proxy_addr) then
            (case time_time e w1 of (t1, w2) \<Rightarrow>
             (case time_time e w2 of (t2, w3) \<Rightarrow>
              (case http_post e Working (proxy_data proxy_addr t1 t2) w3 of
                 (Inr s, w4) \<Rightarrow>
                   if s = 200 then (insert (PStr proxy_addr) existing_proxies, w4)
                   else (existing_proxies, w4)
               | (Inl x, w4) \<Rightarrow> (existing_proxies, w4))))
          else (existing_proxies, w1))"

text \<open>
  The same coroutine cut at its suspension points: before the semaphore is acquired;
  while the probe is under way (the membership test has been passed); while the POST is
  under way (the probe has succeeded and the record is built); finished.
\<close>

datatype vtask = V_start string | V_probe string | V_post string pydict | V_done

fun validate_step :: "env \<Rightarrow> vtask \<times> pyval set shared \<Rightarrow> vtask \<times> pyval set shared" where
  "validate_step e (V_start raw, s) =
     (if in_flight s < CONCURRENCY_LIMIT then
        (let proxy_addr = py_strip raw in
         if proxy_addr = [] then (V_done, s)
         else if PStr proxy_addr \<in> mem s then (V_done, s)
         else (V_probe proxy_addr, s\<lparr>in_flight := Suc (in_flight s)\<rparr>))
      else (V_start raw, s))"
| "validate_step e (V_probe proxy_addr, s) =
     (let w1 = sending (Get_via (PStr proxy_addr)) (world s) in
      if is_proxy_alive e (PStr proxy_addr) then
        (case time_time e w1 of (t1, w2) \<Rightarrow>
         (case time_time e w2 of (t2, w3) \<Rightarrow>
            (V_post proxy_addr (proxy_data proxy_addr t1 t2), s\<lparr>world := w3\<rparr>)))
      else (V_done, release (s\<lparr>world := w1\<rparr>)))"
| "validate_step e (V_post proxy_addr d, s) =
     (case http_post e Working d (world s) of
        (Inr st, w4) \<Rightarrow>
          if st = 200 then (V_done, release (s\<lparr>mem := insert (PStr proxy_addr) (mem s), world := w4\<rparr>))
          else (V_done, release (s\<lparr>world := w4\<rparr>))
      | (Inl x, w4) \<Rightarrow> (V_done, release (s\<lparr>world := w4\<rparr>)))"
| "validate_step e (V_done, s) = (V_done, s)"

fun v_waiting :: "vtask \<Rightarrow> bool" where
  "v_waiting (V_start raw) = True"
| "v_waiting t = False"

text \<open>\<^verbatim>\<open>except Exception as e: logging.error(...)\<close> around the body of a cycle.\<close>

fun except_Exception :: "world outcome \<Rightarrow> world outcome" where
  "except_Exception (Normal w) = Normal w"
| "except_Exception (Raised x w) = Normal w"

text \<open>
  One pass of the \<^verbatim>\<open>while True\<close> of \<^verbatim>\<open>fetch_and_store_loop\<close>, up to the sleep. The
  semaphore is created once, before the loop; every permit is back when \<^verbatim>\<open>gather\<close>
  returns, so each cycle starts with none in use.
\<close>

definition fetch_and_store_body :: "env \<Rightarrow> nat list \<Rightarrow> world \<Rightarrow> world outcome" where
  "fetch_and_store_body e sched w =
     (let w1 = sending Get_source w in
      case source_reply e of
        Inl x \<Rightarrow> Raised x w1
      | Inr (s, txt) \<Rightarrow>
          if s = 200 then
            (case txt of
               Inl x \<Rightarrow> Raised x w1
             | Inr text \<Rightarrow>
                 let proxies = py_split (CHR 0x0A) (py_strip text) in
                 (case get_existing_proxies e Working w1 of (existing, w2) \<Rightarrow>
                  (case gather (validate_step e) v_waiting sched
                          (map V_start proxies, \<lparr>mem = existing, in_flight = 0, world = w2\<rparr>) of
                     (ts, s') \<Rightarrow> Normal (world s'))))
          else Normal w1)"

definition fetch_and_store_cycle :: "env \<Rightarrow> nat list \<Rightarrow> world \<Rightarrow> world outcome" where
  "fetch_and_store_cycle e sched w = except_Exception (fetch_and_store_body e sched w)"

section \<open>The cleanup loop\<close>

text \<open>\<^verbatim>\<open>check_and_delete\<close> when nothing else runs between its steps.\<close>

definition check_and_delete :: "env \<Rightarrow> string \<Rightarrow> pyval \<Rightarrow> world \<Rightarrow> world" where
  "check_and_delete e key proxy_addr w =
     (let w1 = sending (Get_via proxy_addr) w in
      if \<not> is_proxy_alive e proxy_addr
      then snd (http_delete e Working key w1)
      else w1)"

datatype ctask = C_start string pyval | C_probe string pyval | C_delete string pyval | C_done

fun check_step :: "env \<Rightarrow> ctask \<times> unit shared \<Rightarrow> ctask \<times> unit shared" where
  "check_step e (C_start key proxy_addr, s) =
     (if in_flight s < CONCURRENCY_LIMIT
      then (C_probe key proxy_addr, s\<lparr>in_flight := Suc (in_flight s)\<rparr>)
      else (C_start key proxy_addr, s))"
| "check_step e (C_probe key proxy_addr, s) =
     (let w1 = sending (Get_via proxy_addr) (world s) in
      if \<not> is_proxy_alive e proxy_addr
      then (C_delete key proxy_addr, s\<lparr>world := w1\<rparr>)
      else (C_done, release (s\<lparr>world := w1\<rparr>)))"
| "check_step e (C_delete key proxy_addr, s) =
     (C_done, release (s\<lparr>world := snd (http_delete e Working key (world s))\<rparr>))"
| "check_step e (C_done, s) = (C_done, s)"

fun c_waiting :: "ctask \<Rightarrow> bool" where
  "c_waiting (C_start key proxy_addr) = True"
| "c_waiting t = False"

definition cleanup_tasks :: "(string \<times> pydict) list \<Rightarrow> ctask list" where
  "cleanup_tasks data =
     map (\<lambda>(key, val). C_start key (dict_get val ''address''))
       (filter (\<lambda>(key, val). truthy (dict_get val ''address'')) data)"

definition cleanup_body :: "env \<Rightarrow> nat list \<Rightarrow> world \<Rightarrow> world outcome" where
  "cleanup_body e sched w =
     (case http_get_json e Working w of
        (Inl x, w1) \<Rightarrow> Raised x w1
      | (Inr resp, w1) \<Rightarrow>
          if status resp = 200 then
            (case body resp of
               Inl x \<Rightarrow> Raised x w1
             | Inr data \<Rightarrow>
                 if data \<noteq> [] then
                   (case gather (check_step e) c_waiting sched
                           (cleanup_tasks data, \<lparr>mem = (), in_flight = 0, world = w1\<rparr>) of
                      (ts, s') \<Rightarrow> Normal (world s'))
                 else Normal w1)
          else Normal w1)"

definition cleanup_cycle :: "env \<Rightarrow> nat list \<Rightarrow> world \<Rightarrow> world outcome" where
  "cleanup_cycle e sched w = except_Exception (cleanup_body e sched w)"

section \<open>The stability monitor\<close>

definition stable_data :: "pyval \<Rightarrow> real \<Rightarrow> string \<Rightarrow> real \<Rightarrow> pydict" where
  "stable_data p_addr current_time key age =
     [(''address'', p_addr),
      (''promoted_at'', PNum current_time),
      (''original_key'', PStr key),
      (''age_seconds'', PNum age)]"

text \<open>
  The body of the \<^verbatim>\<open>for key, val in data.items()\<close>, for a threshold \<open>thr\<close>. The POST
  stands in no \<^verbatim>\<open>try\<close> of its own: an exception leaves the loop.
\<close>

definition promote_entry ::
  "real \<Rightarrow> env \<Rightarrow> real \<Rightarrow> string \<times> pydict \<Rightarrow> pyval set \<times> world \<Rightarrow> (pyval set \<times> world) outcome" where
  "promote_entry thr e current_time entry p =
     (case entry of (key, val) \<Rightarrow>
      (case p of (stable_existing, w) \<Rightarrow>
        let p_addr = dict_get val ''address'';
            created_at = dict_get_default val ''created_at'' (PNum current_time)
        in (case py_sub current_time created_at of
              Inl x \<Rightarrow> Raised x (stable_existing, w)
            | Inr age \<Rightarrow>
                if age \<ge> thr \<and> p_addr \<notin> stable_existing then
                  (case http_post e Stable (stable_data p_addr current_time key age) w of
                     (Inl x, w') \<Rightarrow> Raised x (stable_existing, w')
                   | (Inr s, w') \<Rightarrow>
                       if s = 200 then Normal (insert p_addr stable_existing, w')
                       else Normal (stable_existing, w'))
                else Normal (stable_existing, w))))"

fun promote_all ::
  "real \<Rightarrow> env \<Rightarrow> real \<Rightarrow> (string \<times> pydict) list \<Rightarrow> pyval set \<times> world \<Rightarrow> (pyval set \<times> world) outcome" where
  "promote_all thr e current_time [] p = Normal p"
| "promote_all thr e current_time (entry # entries) p =
     (case promote_entry thr e current_time entry p of
        Normal p' \<Rightarrow> promote_all thr e current_time entries p'
      | Raised x p' \<Rightarrow> Raised x p')"

definition stability_body :: "real \<Rightarrow> env \<Rightarrow> world \<Rightarrow> world outcome" where
  "stability_body thr e w =
     (case http_get_json e Working w of
        (Inl x, w1) \<Rightarrow> Raised x w1
      | (Inr resp, w1) \<Rightarrow>
          if status resp = 200 then
            (case body resp of
               Inl x \<Rightarrow> Raised x w1
             | Inr data \<Rightarrow>
                 if data \<noteq> [] then
                   (case time_time e w1 of (current_time, w2) \<Rightarrow>
                    (case get_existing_proxies e Stable w2 of (stable_existing, w3) \<Rightarrow>
                     (case promote_all thr e current_time data (stable_existing, w3) of
                        Normal (known, w4) \<Rightarrow> Normal w4
                      | Raised x (known, w4) \<Rightarrow> Raised x w4)))
                 else Normal w1)
          else Normal w1)"

definition stability_cycle :: "real \<Rightarrow> env \<Rightarrow> world \<Rightarrow> world outcome" where
  "stability_cycle thr e w = except_Exception (stability_body thr e w)"

definition stability_monitor_cycle :: "env \<Rightarrow> world \<Rightarrow> world outcome" where
  "stability_monitor_cycle = stability_cycle STABILITY_THRESHOLD"

section \<open>The three loops together\<close>

text \<open>
  \<^verbatim>\<open>main\<close> runs the three loops until the process is interrupted. An execution is taken
  as a sequence of cycles, each of any of the three loops and each with its own
  environment and, for the two loops that gather tasks, its own schedule; after a
  cycle the loop sleeps and starts the next one in the world the cycle left.
\<close>

datatype activity = Fetch env "nat list" | Cleanup env "nat list" | Monitor env

fun run_cycle :: "activity \<Rightarrow> world \<Rightarrow> world" where
  "run_cycle (Fetch e sched) w = state_of (fetch_and_store_cycle e sched w)"
| "run_cycle (Cleanup e sched) w = state_of (cleanup_cycle e sched w)"
| "run_cycle (Monitor e) w = state_of (stability_monitor_cycle e w)"

definition run_system :: "activity list \<Rightarrow> world \<Rightarrow> world" where
  "run_system acts w = fold run_cycle acts w"

section \<open>Notions used to state the properties\<close>

text \<open>
  \<open>extends xs ys P\<close>: the list \<open>ys\<close> is \<open>xs\<close> followed by elements that all satisfy \<open>P\<close>;
  \<open>added xs ys\<close> are these elements. The requests a computation sent are those added to
  \<open>sent\<close>.
\<close>

definition extends :: "'a list \<Rightarrow> 'a list \<Rightarrow> ('a \<Rightarrow> bool) \<Rightarrow> bool" where
  "extends xs ys P = (\<exists>new. ys = xs @ new \<and> (\<forall>x \<in> set new. P x))"

definition added :: "'a list \<Rightarrow> 'a list \<Rightarrow> 'a list" where
  "added xs ys = drop (length xs) ys"

definition requests_of :: "world \<Rightarrow> world \<Rightarrow> request list" where
  "requests_of w w' = added (sent w) (sent w')"

text \<open>The age the stability monitor computes for a record at the scan time.\<close>

definition age_of :: "real \<Rightarrow> pydict \<Rightarrow> py_exception + real" where
  "age_of current_time val =
     py_sub current_time (dict_get_default val ''created_at'' (PNum current_time))"

text \<open>
  \<open>promoted_from thr t data d\<close>: the record \<open>d\<close> is the \<^verbatim>\<open>stable_data\<close> built at scan time
  \<open>t\<close> from an entry of \<open>data\<close> whose age is at least \<open>thr\<close>.
\<close>

definition promoted_from :: "real \<Rightarrow> real \<Rightarrow> (string \<times> pydict) list \<Rightarrow> pydict \<Rightarrow> bool" where
  "promoted_from thr current_time data d =
     (\<exists>(key, val) \<in> set data.
        case age_of current_time val of
          Inl x \<Rightarrow> False
        | Inr age \<Rightarrow> thr \<le> age \<and> d = stable_data (dict_get val ''address'') current_time key age)"

definition stability_request :: "real \<Rightarrow> real \<Rightarrow> (string \<times> pydict) list \<Rightarrow> request \<Rightarrow> bool" where
  "stability_request thr current_time data r =
     (r = Get_json Working \<or> r = Get_json Stable
      \<or> (\<exists>d. r = Post Stable d \<and> promoted_from thr current_time data d))"

text \<open>The number of records of a collection that carry a given address.\<close>

definition count_address :: "pyval \<Rightarrow> (string \<times> pydict) list \<Rightarrow> nat" where
  "count_address a xs = length (filter (\<lambda>(k, d). dict_get d ''address'' = a) xs)"

text \<open>
  For the fetch loop, with the candidates \<open>cands\<close> and the known set \<open>known0\<close> read at the
  start of the cycle: an address that passed the two tests of \<^verbatim>\<open>validate_and_add\<close>; a
  record built for such an address after a successful probe; the requests the tasks send.
\<close>

definition candidate_ok :: "string list \<Rightarrow> pyval set \<Rightarrow> string \<Rightarrow> bool" where
  "candidate_ok cands known0 a = (a \<noteq> [] \<and> PStr a \<notin> known0 \<and> a \<in> py_strip ` set cands)"

definition validated_record :: "env \<Rightarrow> string list \<Rightarrow> pyval set \<Rightarrow> pydict \<Rightarrow> bool" where
  "validated_record e cands known0 d =
     (\<exists>a n. candidate_ok cands known0 a \<and> is_proxy_alive e (PStr a)
            \<and> d = proxy_data a (clock e n) (clock e (Suc n)))"

definition fetch_request :: "env \<Rightarrow> string list \<Rightarrow> pyval set \<Rightarrow> request \<Rightarrow> bool" where
  "fetch_request e cands known0 r =
     ((\<exists>a. r = Get_via (PStr a) \<and> candidate_ok cands known0 a)
      \<or> (\<exists>d. r = Post Working d \<and> validated_record e cands known0 d))"

fun vtask_ok :: "env \<Rightarrow> string list \<Rightarrow> pyval set \<Rightarrow> vtask \<Rightarrow> bool" where
  "vtask_ok e cands known0 (V_start raw) = (raw \<in> set cands)"
| "vtask_ok e cands known0 (V_probe a) = candidate_ok cands known0 a"
| "vtask_ok e cands known0 (V_post a d) =
     (candidate_ok cands known0 a \<and> is_proxy_alive e (PStr a)
      \<and> (\<exists>n. d = proxy_data a (clock e n) (clock e (Suc n))))"
| "vtask_ok e cands known0 V_done = True"

definition ingest_ok :: "env \<Rightarrow> string list \<Rightarrow> pyval set \<Rightarrow> world \<Rightarrow> pyval set shared \<Rightarrow> bool" where
  "ingest_ok e cands known0 w0 s =
     (known0 \<subseteq> mem s \<and> stable (world s) = stable w0
      \<and> extends (working w0) (working (world s)) (\<lambda>(k, d). validated_record e cands known0 d)
      \<and> extends (sent w0) (sent (world s)) (fetch_request e cands known0)
      \<and> (distinct (map fst (working w0)) \<longrightarrow> distinct (map fst (working (world s)))))"

text \<open>
  The addresses of the entries a scan at time \<open>t\<close> finds old enough; a record whose
  \<^verbatim>\<open>created_at\<close>, when it has one, is a number in the range of the floats; a store
  that serves both reads and accepts every POST to the stable collection.
\<close>

definition ripe_addresses :: "real \<Rightarrow> real \<Rightarrow> (string \<times> pydict) list \<Rightarrow> pyval set" where
  "ripe_addresses thr t data =
     set (map (\<lambda>(k, v). dict_get v ''address'')
            (filter (\<lambda>(k, v). case age_of t v of Inl x \<Rightarrow> False | Inr age \<Rightarrow> thr \<le> age) data))"

definition numeric_created_at :: "pydict \<Rightarrow> bool" where
  "numeric_created_at v =
     (case dict_get_default v ''created_at'' (PNum 0) of
        PNum c \<Rightarrow> \<bar>nearest_double c\<bar> < 2 ^ 1024
      | PStr s \<Rightarrow> False
      | PNone \<Rightarrow> False)"

definition store_up :: "env \<Rightarrow> bool" where
  "store_up e =
     (read_reply e Working = Inr (200, None) \<and> read_reply e Stable = Inr (200, None)
      \<and> (\<forall>d. post_reply e Stable d = Inr 200))"

text \<open>
  The candidates of a fetch cycle (none when the bulk source gave no list) and the known
  set it reads at its start.
\<close>

definition cycle_candidates :: "env \<Rightarrow> string list" where
  "cycle_candidates e =
     (case source_reply e of
        Inl x \<Rightarrow> []
      | Inr (s, txt) \<Rightarrow>
          if s = 200 then (case txt of Inl x \<Rightarrow> [] | Inr text \<Rightarrow> py_split (CHR 0x0A) (py_strip text))
          else [])"

definition cycle_known :: "env \<Rightarrow> world \<Rightarrow> pyval set" where
  "cycle_known e w = existing_of (store_read e Working w)"

definition fetch_cycle_request :: "env \<Rightarrow> world \<Rightarrow> request \<Rightarrow> bool" where
  "fetch_cycle_request e w r =
     (r = Get_source \<or> r = Get_json Working
      \<or> fetch_request e (cycle_candidates e) (cycle_known e w) r)"

text \<open>
  For the cleanup loop: the (key, address) pairs a cycle scans, the requests its tasks
  send, and what the tasks leave of the working collection. A dead pair is one whose
  probe fails.
\<close>

definition cleanup_pairs :: "(string \<times> pydict) list \<Rightarrow> (string \<times> pyval) list" where
  "cleanup_pairs data =
     map (\<lambda>(key, val). (key, dict_get val ''address''))
       (filter (\<lambda>(key, val). truthy (dict_get val ''address'')) data)"

definition cleanup_request :: "env \<Rightarrow> (string \<times> pyval) list \<Rightarrow> request \<Rightarrow> bool" where
  "cleanup_request e pairs r =
     (r = Get_json Working
      \<or> (\<exists>(k, a) \<in> set pairs. r = Get_via a)
      \<or> (\<exists>(k, a) \<in> set pairs. r = Delete Working k \<and> \<not> is_proxy_alive e a))"

definition dead_keys :: "env \<Rightarrow> (string \<times> pyval) list \<Rightarrow> string set" where
  "dead_keys e pairs = {k. \<exists>a. (k, a) \<in> set pairs \<and> \<not> is_proxy_alive e a}"

definition cleanup_ok :: "env \<Rightarrow> (string \<times> pyval) list \<Rightarrow> world \<Rightarrow> world \<Rightarrow> bool" where
  "cleanup_ok e pairs w0 w =
     (stable w = stable w0
      \<and> extends (sent w0) (sent w) (cleanup_request e pairs)
      \<and> set (working w) \<subseteq> set (working w0)
      \<and> (\<forall>(k, v) \<in> set (working w0). k \<notin> dead_keys e pairs \<longrightarrow> (k, v) \<in> set (working w))
      \<and> (distinct (map fst (working w0)) \<longrightarrow> distinct (map fst (working w))))"

fun ctask_in :: "env \<Rightarrow> (string \<times> pyval) list \<Rightarrow> ctask \<Rightarrow> bool" where
  "ctask_in e pairs (C_start k a) = ((k, a) \<in> set pairs)"
| "ctask_in e pairs (C_probe k a) = ((k, a) \<in> set pairs)"
| "ctask_in e pairs (C_delete k a) = ((k, a) \<in> set pairs \<and> \<not> is_proxy_alive e a)"
| "ctask_in e pairs C_done = True"

text \<open>
  The \<open>i\<close>-th task of a cleanup cycle, in a world \<open>w\<close> reached from \<open>w0\<close>: it works on the
  \<open>i\<close>-th pair; it has sent the DELETE of its key only when it has finished after a
  failed probe, and then the key is gone if the store answered 200.
\<close>

fun ctask_ok :: "env \<Rightarrow> (string \<times> pyval) list \<Rightarrow> world \<Rightarrow> nat \<Rightarrow> ctask \<Rightarrow> world \<Rightarrow> bool" where
  "ctask_ok e pairs w0 i (C_start k a) w =
     (pairs ! i = (k, a) \<and> Delete Working k \<notin> set (requests_of w0 w))"
| "ctask_ok e pairs w0 i (C_probe k a) w =
     (pairs ! i = (k, a) \<and> Delete Working k \<notin> set (requests_of w0 w))"
| "ctask_ok e pairs w0 i (C_delete k a) w =
     (pairs ! i = (k, a) \<and> \<not> is_proxy_alive e a \<and> Delete Working k \<notin> set (requests_of w0 w))"
| "ctask_ok e pairs w0 i C_done w =
     ((Delete Working (fst (pairs ! i)) \<in> set (requests_of w0 w)
        \<longleftrightarrow> \<not> is_proxy_alive e (snd (pairs ! i)))
      \<and> (\<not> is_proxy_alive e (snd (pairs ! i)) \<and> delete_reply e Working (fst (pairs ! i)) = Inr 200
           \<longrightarrow> fst (pairs ! i) \<notin> fst ` set (working w)))"

text \<open>
  For a pool of tasks: a task holds a permit when it neither waits for one nor has
  finished; the semaphore counts the holders; an invariant of the pool is one of the
  shared state together with one of each task.
\<close>

definition holding :: "('t \<Rightarrow> bool) \<Rightarrow> ('t \<Rightarrow> bool) \<Rightarrow> 't \<Rightarrow> bool" where
  "holding waiting finished t = (\<not> waiting t \<and> \<not> finished t)"

definition thrice :: "('a \<Rightarrow> 'a) \<Rightarrow> 'a \<Rightarrow> 'a" where
  "thrice f x = f (f (f x))"

definition permits_ok :: "('t \<Rightarrow> bool) \<Rightarrow> ('t \<Rightarrow> bool) \<Rightarrow> 't list \<times> 'm shared \<Rightarrow> bool" where
  "permits_ok waiting finished p =
     (in_flight (snd p) = length (filter (holding waiting finished) (fst p)))"

definition pool_inv ::
  "(nat \<Rightarrow> 't \<Rightarrow> 'm shared \<Rightarrow> bool) \<Rightarrow> ('m shared \<Rightarrow> bool) \<Rightarrow> nat \<Rightarrow> 't list \<times> 'm shared \<Rightarrow> bool" where
  "pool_inv I Q n p = (length (fst p) = n \<and> Q (snd p) \<and> (\<forall>i<n. I i (fst p ! i) (snd p)))"

section \<open>Sample inputs\<close>

text \<open>
  A bulk list with one address twice and one entry nobody answers for; a store that
  works; a clock that advances by one microsecond at each reading, from 1000.
\<close>

definition sample_source :: string where
  "sample_source = ''1.2.3.4:8080'' @ [CHR 0x0A] @ ''bad:entry'' @ [CHR 0x0A] @ ''1.2.3.4:8080''"

definition sample_env :: env where
  "sample_env =
     \<lparr>clock = (\<lambda>n. 1000 + real n / 1000000),
      source_reply = Inr (200, Inr sample_source),
      read_reply = (\<lambda>c. Inr (200, None)),
      probe_reply = (\<lambda>a. if a = PStr ''1.2.3.4:8080'' then Inr 200 else Inl TimeoutError),
      post_reply = (\<lambda>c d. Inr 200),
      delete_reply = (\<lambda>c k. Inr 200)\<rparr>"

text \<open>An environment in which every request raises.\<close>

definition broken_env :: env where
  "broken_env =
     \<lparr>clock = (\<lambda>n. 1000 + real n / 1000000),
      source_reply = Inl ClientError,
      read_reply = (\<lambda>c. Inl ClientError),
      probe_reply = (\<lambda>a. Inl TimeoutError),
      post_reply = (\<lambda>c d. Inl ClientError),
      delete_reply = (\<lambda>c k. Inl ClientError)\<rparr>"

definition empty_world :: world where
  "empty_world = \<lparr>working = [], stable = [], sent = [], ticks = 0\<rparr>"

text \<open>
  A working collection of three records: one created 700 seconds before the first
  reading of the clock, one without \<^verbatim>\<open>created_at\<close> whose proxy is dead, one without
  \<^verbatim>\<open>address\<close>.
\<close>

definition old_record :: pydict where
  "old_record =
     [(''address'', PStr ''1.2.3.4:8080''), (''last_checked'', PNum 300),
      (''created_at'', PNum 300), (''status'', PStr ''active'')]"

definition undated_record :: pydict where
  "undated_record = [(''address'', PStr ''5.6.7.8:3128''), (''status'', PStr ''active'')]"

definition addressless_record :: pydict where
  "addressless_record = [(''created_at'', PNum 900), (''status'', PStr ''active'')]"

definition sample_world :: world where
  "sample_world =
     \<lparr>working = [(''k1'', old_record), (''k2'', undated_record), (''k3'', addressless_record)],
      stable = [], sent = [], ticks = 0\<rparr>"

text \<open>A working collection that holds the same old record under two keys.\<close>

definition twin_world :: world where
  "twin_world =
     \<lparr>working = [(''k1'', old_record), (''k4'', old_record)], stable = [], sent = [], ticks = 0\<rparr>"

text \<open>
  A working collection with the one record, and one whose record was created at the float
  \<^verbatim>\<open>0.30000000000000004\<close>, scanned when the clock reads the float \<^verbatim>\<open>600.3\<close>.
\<close>

definition lone_world :: world where
  "lone_world = \<lparr>working = [(''k1'', old_record)], stable = [], sent = [], ticks = 0\<rparr>"

definition early_record :: pydict where
  "early_record =
     [(''address'', PStr ''1.2.3.4:8080''), (''created_at'', PNum (1351079888211149 / 2 ^ 52))]"

definition early_world :: world where
  "early_world = \<lparr>working = [(''k6'', early_record)], stable = [], sent = [], ticks = 0\<rparr>"

definition early_env :: env where
  "early_env = sample_env\<lparr>clock := \<lambda>n. 2640147320615731 / 2 ^ 42\<rparr>"

definition sample_run :: "activity list" where
  "sample_run = [Cleanup sample_env [0, 1], Monitor sample_env, Fetch sample_env [0, 1, 2]]"

section \<open>Floats\<close>

lemma nearest_double_zero [simp]: "nearest_double 0 = 0"
  by (simp add: nearest_double_def)

lemma round_half_even_of_int [simp]: "round_half_even (of_int m) = m"
  by (simp add: round_half_even_def)

lemma round_half_even_numeral [simp]: "round_half_even (numeral n) = numeral n"
  using round_half_even_of_int[of "numeral n"] by simp

text \<open>
  The float nearest to a number whose significand, scaled to 53 bits, is known: the
  number is multiplied by the power of two that brings it between \<open>2 ^ 52\<close> and
  \<open>2 ^ 53\<close>, rounded to an integer, and scaled back.
\<close>

lemma nearest_double_scaled:
  assumes k: "k \<le> 1074" and lo: "2 ^ 52 \<le> \<bar>x\<bar> * 2 ^ k" and hi: "\<bar>x\<bar> * 2 ^ k < 2 ^ 53"
  shows "nearest_double x = of_int (round_half_even (x * 2 ^ k)) / 2 ^ k"
proof -
  have pos: "0 < \<bar>x\<bar>" using lo by (cases "x = 0") auto
  have p: "(2::real) powr (52 - real k) = 2 ^ 52 / 2 ^ k"
    by (simp add: powr_diff powr_realpow)
  have q: "(2::real) powr (of_int (52 - int k) + 1) = 2 ^ 53 / 2 ^ k"
    by (simp add: powr_diff powr_realpow add.commute)
  have p': "(2::real) powr (of_int (52 - int k)) = 2 ^ 52 / 2 ^ k"
    using p by simp
  have "2 powr (of_int (52 - int k)) \<le> \<bar>x\<bar>"
    unfolding p' using lo by (simp add: field_simps)
  moreover have "\<bar>x\<bar> < 2 powr (of_int (52 - int k) + 1)"
    unfolding q using hi by (simp add: field_simps)
  ultimately have e: "\<lfloor>log 2 \<bar>x\<bar>\<rfloor> = 52 - int k"
    using pos floor_log_eq_powr_iff[of "\<bar>x\<bar>" 2 "52 - int k"] by simp
  have m: "max (52 - int k) (- 1022) = 52 - int k" using k by simp
  have u: "(2::real) powr (of_int (52 - int k) - 52) = 1 / 2 ^ k"
    by (simp add: powr_minus powr_realpow divide_simps)
  have nz: "x \<noteq> 0" using pos by simp
  have "nearest_double x = of_int (round_half_even (x / (1 / 2 ^ k))) * (1 / 2 ^ k)"
    using nz unfolding nearest_double_def e m u by (rule if_not_P)
  then show ?thesis by simp
qed

lemma nearest_double_of_int:
  assumes "\<bar>n\<bar> < 2 ^ 53"
  shows "nearest_double (of_int n) = of_int n"
proof (cases "n = 0")
  case True
  then show ?thesis by simp
next
  case False
  define e where "e = \<lfloor>log 2 \<bar>real_of_int n\<bar>\<rfloor>"
  have one: "1 \<le> \<bar>real_of_int n\<bar>" using False by (simp add: abs_if)
  have lt: "\<bar>real_of_int n\<bar> < 2 ^ 53"
    using assms by (metis of_int_abs of_int_less_numeral_power_cancel_iff)
  have "0 \<le> log 2 \<bar>real_of_int n\<bar>" using one by simp
  then have e0: "0 \<le> e" by (simp add: e_def)
  have "log 2 \<bar>real_of_int n\<bar> < 53"
    using lt one by (simp add: log_less_iff powr_realpow[symmetric])
  then have e53: "e < 53" unfolding e_def by linarith
  define j where "j = nat (52 - e)"
  have j: "int j = 52 - e" using e53 by (simp add: j_def)
  have m: "max e (- 1022) = e" using e0 by simp
  have u: "(2::real) powr (of_int e - 52) = 1 / 2 ^ j"
  proof -
    have "of_int e - (52::real) = - real j" using j by linarith
    then show ?thesis by (simp add: powr_minus powr_realpow divide_simps)
  qed
  have r: "real_of_int n / (1 / 2 ^ j) = of_int (n * 2 ^ j)" by simp
  have nz: "real_of_int n \<noteq> 0" using False by simp
  have "nearest_double (of_int n)
          = of_int (round_half_even (real_of_int n / (1 / 2 ^ j))) * (1 / 2 ^ j)"
    using nz unfolding nearest_double_def e_def[symmetric] m u by (rule if_not_P)
  then show ?thesis unfolding r round_half_even_of_int by simp
qed

lemma nearest_double_numeral [simp]:
  "numeral n < (2::int) ^ 53 \<Longrightarrow> nearest_double (numeral n) = numeral n"
  using nearest_double_of_int[of "numeral n"] by simp

text \<open>
  The exponent is computed from the number of bits of an integer, so that the nearest
  float of a rational number can be evaluated.
\<close>

lemma floor_log2_bitlen:
  assumes y1: "1 \<le> y"
  shows "\<lfloor>log 2 y\<rfloor> = bitlen \<lfloor>y\<rfloor> - 1"
proof -
  have ypos: "0 < y" using y1 by simp
  define m where "m = \<lfloor>y\<rfloor>"
  have m1: "1 \<le> m" using y1 by (simp add: m_def le_floor_iff)
  define k where "k = \<lfloor>log 2 y\<rfloor>"
  have "0 \<le> log 2 y" using y1 by simp
  then have k0: "0 \<le> k" by (simp add: k_def)
  have b: "2 powr (of_int k) \<le> y \<and> y < 2 powr (of_int k + 1)"
    using floor_log_eq_powr_iff[of y 2 k] ypos by (simp add: k_def)
  have pk: "(2::real) powr (of_int k) = of_int (2 ^ nat k)"
    using k0 by (simp add: powr_realpow[symmetric])
  have pk1: "(2::real) powr (of_int k + 1) = of_int (2 ^ nat (k + 1))"
    using k0 by (simp add: powr_realpow[symmetric] nat_add_distrib powr_add)
  have lo: "real_of_int (2 ^ nat k) \<le> real_of_int m"
    using b unfolding pk m_def by (metis le_floor_iff of_int_le_iff)
  have "real_of_int m \<le> y" by (simp add: m_def)
  then have hi: "real_of_int m < real_of_int (2 ^ nat (k + 1))"
    using b unfolding pk1 by linarith
  have mpos: "0 < real_of_int m" using m1 by simp
  have "2 powr (of_int k) \<le> real_of_int m \<and> real_of_int m < 2 powr (of_int k + 1)"
    using lo hi unfolding pk pk1 by simp
  then have "\<lfloor>log 2 (real_of_int m)\<rfloor> = k"
    using floor_log_eq_powr_iff[of "real_of_int m" 2 k] mpos by simp
  then have "bitlen m = k + 1" using m1 by (simp add: bitlen_alt_def)
  then show ?thesis unfolding k_def[symmetric] m_def[symmetric] by simp
qed

lemma floor_log2_bitlen_small:
  assumes y0: "0 < y" and y1: "y < 1"
  shows "\<lfloor>log 2 y\<rfloor> = - bitlen (\<lceil>1 / y\<rceil> - 1)"
proof -
  define z where "z = 1 / y"
  have z1: "1 < z" using y0 y1 by (simp add: z_def)
  define n where "n = \<lceil>z\<rceil> - 1"
  have n1: "1 \<le> n" using z1 unfolding n_def by linarith
  define k where "k = nat (bitlen n)"
  have bk: "bitlen n = int k" by (simp add: k_def bitlen_nonneg)
  have k1: "1 \<le> k" using bitlen_bounds[of n] n1 bk by (cases k) simp_all
  have bnd: "2 ^ (k - 1) \<le> n \<and> n < 2 ^ k"
    using bitlen_bounds[of n] n1 bk k1 by (simp add: nat_diff_distrib)
  have "\<lceil>z\<rceil> \<le> 2 ^ k" using bnd by (simp add: n_def)
  then have zle: "z \<le> 2 ^ k" by (simp add: ceiling_le_iff)
  have "2 ^ (k - 1) < \<lceil>z\<rceil>" using bnd by (simp add: n_def)
  then have zgt: "2 ^ (k - 1) < z" by (simp add: less_ceiling_iff)
  have yz: "y = 1 / z" using y0 by (simp add: z_def)
  have zpos: "0 < z" using z1 by simp
  have lo: "1 / 2 ^ k \<le> y"
    unfolding yz using zle zpos by (simp add: field_simps)
  have hi: "y < 1 / 2 ^ (k - 1)"
    unfolding yz using zgt zpos by (simp add: field_simps)
  have p: "(2::real) powr (of_int (- int k)) = 1 / 2 ^ k"
    by (simp add: powr_minus powr_realpow divide_simps)
  have "real_of_int (- int k + 1) = - real (k - 1)" using k1 by simp
  then have q: "(2::real) powr (of_int (- int k + 1)) = 1 / 2 ^ (k - 1)"
    by (simp only: powr_minus powr_realpow) (simp add: divide_simps)
  have b1: "2 powr (of_int (- int k)) \<le> y" using lo unfolding p .
  have b2: "y < 2 powr (of_int (- int k + 1))" using hi unfolding q .
  have two: "(1::real) < 2" by simp
  have "\<lfloor>log 2 y\<rfloor> = - int k"
    using iffD2[OF floor_log_eq_powr_iff[OF y0 two], OF conjI[OF b1 b2]] .
  then show ?thesis unfolding bk z_def[symmetric] n_def[symmetric] by simp
qed

lemma powr_of_int_code:
  "(2::real) powr (of_int e) = (if 0 \<le> e then 2 ^ nat e else 1 / 2 ^ nat (- e))"
proof (cases "0 \<le> e")
  case True
  then show ?thesis by (simp add: powr_realpow[symmetric])
next
  case False
  then have "(2::real) powr (of_int e) = 2 powr (- real (nat (- e)))" by simp
  also have "\<dots> = 1 / 2 ^ nat (- e)"
    unfolding powr_minus by (simp add: powr_realpow divide_simps)
  finally show ?thesis using False by simp
qed

lemma nearest_double_code [code]:
  "nearest_double x =
     (if x = 0 then 0
      else let e = max (if 1 \<le> \<bar>x\<bar> then bitlen \<lfloor>\<bar>x\<bar>\<rfloor> - 1
                        else - bitlen (\<lceil>1 / \<bar>x\<bar>\<rceil> - 1)) (- 1022) - 52;
               u = (if 0 \<le> e then 2 ^ nat e else 1 / 2 ^ nat (- e))
           in of_int (round_half_even (x / u)) * u)"
proof (cases "x = 0")
  case True
  then show ?thesis by simp
next
  case False
  define e where "e = max (if 1 \<le> \<bar>x\<bar> then bitlen \<lfloor>\<bar>x\<bar>\<rfloor> - 1
                        else - bitlen (\<lceil>1 / \<bar>x\<bar>\<rceil> - 1)) (- 1022) - 52"
  have "\<lfloor>log 2 \<bar>x\<bar>\<rfloor> = (if 1 \<le> \<bar>x\<bar> then bitlen \<lfloor>\<bar>x\<bar>\<rfloor> - 1
                        else - bitlen (\<lceil>1 / \<bar>x\<bar>\<rceil> - 1))"
    using False floor_log2_bitlen[of "\<bar>x\<bar>"] floor_log2_bitlen_small[of "\<bar>x\<bar>"] by simp
  then have u: "(2::real) powr (of_int (max \<lfloor>log 2 \<bar>x\<bar>\<rfloor> (- 1022)) - 52) = 2 powr (of_int e)"
    unfolding e_def by simp
  show ?thesis
    using False unfolding nearest_double_def u Let_def e_def[symmetric] powr_of_int_code[symmetric]
    by simp
qed

text \<open>A power of two is a float of the model, whatever its size.\<close>

lemma nearest_double_power2: "nearest_double (2 ^ n) = 2 ^ n"
proof -
  have l: "\<lfloor>log 2 \<bar>(2::real) ^ n\<bar>\<rfloor> = int n"
    using log_pow_cancel[of "2::real" n] by simp
  have m: "max (int n) (- 1022) = int n" by simp
  have nz: "(2::real) ^ n \<noteq> 0" by simp
  have p: "(2::real) ^ n = 2 powr (real n)" by (simp add: powr_realpow)
  have "(2::real) ^ n / 2 powr (of_int (int n) - 52) = 2 powr 52"
    unfolding p by (simp add: powr_diff)
  also have "\<dots> = of_int (2 ^ 52)" by (simp add: powr_realpow[symmetric])
  finally have q: "(2::real) ^ n / 2 powr (of_int (int n) - 52) = of_int (2 ^ 52)" .
  have "nearest_double (2 ^ n)
          = of_int (round_half_even (2 ^ n / 2 powr (of_int (int n) - 52)))
              * 2 powr (of_int (int n) - 52)"
    using nz unfolding nearest_double_def l m by (rule if_not_P)
  also have "\<dots> = 2 powr 52 * 2 powr (of_int (int n) - 52)"
    unfolding q round_half_even_of_int by (simp add: powr_realpow[symmetric])
  also have "\<dots> = 2 powr (real n)"
    unfolding powr_add[symmetric] by simp
  finally show ?thesis unfolding p .
qed

lemma py_sub_self [simp]: "py_sub t (PNum t) = Inr 0"
  by simp

text \<open>
  The subtraction rounds: at the floats written \<^verbatim>\<open>600.3\<close> and
  \<^verbatim>\<open>0.30000000000000004\<close> the exact difference is below 600 and the float computed
  is 600.
\<close>

lemma nearest_double_600_3:
  "nearest_double (2640147320615731 / 2 ^ 42) = 2640147320615731 / 2 ^ 42"
  using nearest_double_scaled[of 43 "2640147320615731 / 2 ^ 42"] by simp

lemma nearest_double_0_3:
  "nearest_double (1351079888211149 / 2 ^ 52) = 1351079888211149 / 2 ^ 52"
  using nearest_double_scaled[of 54 "1351079888211149 / 2 ^ 52"] by simp

lemma float_subtraction_rounds:
  "2640147320615731 / 2 ^ 42 - 1351079888211149 / 2 ^ 52 < (600::real)
   \<and> py_sub (2640147320615731 / 2 ^ 42) (PNum (1351079888211149 / 2 ^ 52)) = Inr 600"
proof -
  have d: "nearest_double (2640147320615731 / 2 ^ 42 - 1351079888211149 / 2 ^ 52) = 600"
    using nearest_double_scaled[of 43 "2640147320615731 / 2 ^ 42 - 1351079888211149 / 2 ^ 52"]
    by (simp add: round_half_even_def)
  have lt: "2640147320615731 / 2 ^ 42 - 1351079888211149 / 2 ^ 52 < (600::real)" by simp
  have a: "\<bar>nearest_double (1351079888211149 / 2 ^ 52)\<bar> < 2 ^ 1024"
    unfolding nearest_double_0_3 by simp
  have "py_sub (2640147320615731 / 2 ^ 42) (PNum (1351079888211149 / 2 ^ 52))
          = Inr (nearest_double (nearest_double (2640147320615731 / 2 ^ 42)
                                  - nearest_double (1351079888211149 / 2 ^ 52)))"
    using a unfolding py_sub.simps by (simp only: not_le[symmetric] simp_thms if_False)
  then show ?thesis
    unfolding nearest_double_600_3 nearest_double_0_3 d using lt by simp
qed


text \<open>The two floats are the ones Python reads from these literals.\<close>

lemma float_literals:
  "nearest_double (6003 / 10) = 2640147320615731 / 2 ^ 42
   \<and> nearest_double (30000000000000004 / 10 ^ 17) = 1351079888211149 / 2 ^ 52"
  by code_simp

section \<open>Invariants of a pool of tasks\<close>

lemma fold_invariant:
  assumes "P s" and "\<And>x s. x \<in> set xs \<Longrightarrow> P s \<Longrightarrow> P (f x s)"
  shows "P (fold f xs s)"
  using assms by (induction xs arbitrary: s) auto

lemma resume_pool_inv:
  assumes step: "\<And>i t s t' s'. i < n \<Longrightarrow> I i t s \<Longrightarrow> Q s \<Longrightarrow> step (t, s) = (t', s') \<Longrightarrow>
              I i t' s' \<and> Q s' \<and> (\<forall>j u. j < n \<longrightarrow> j \<noteq> i \<longrightarrow> I j u s \<longrightarrow> I j u s')"
    and inv: "pool_inv I Q n p"
  shows "pool_inv I Q n (resume step i p)"
proof (cases p)
  case (Pair ts s)
  show ?thesis
  proof (cases "i < length ts")
    case False
    with Pair inv show ?thesis by (simp add: resume_def)
  next
    case True
    obtain t' s' where st: "step (ts ! i, s) = (t', s')" by (cases "step (ts ! i, s)")
    from inv Pair True have len: "length ts = n" and i: "i < n" and q: "Q s"
      and all: "\<forall>j<n. I j (ts ! j) s"
      by (simp_all add: pool_inv_def)
    from all i have "I i (ts ! i) s" by simp
    from step[OF i this q st] have a: "I i t' s'" and b: "Q s'"
      and c: "\<forall>j u. j < n \<longrightarrow> j \<noteq> i \<longrightarrow> I j u s \<longrightarrow> I j u s'" by simp_all
    have "\<forall>j<n. I j (ts[i := t'] ! j) s'"
    proof (intro allI impI)
      fix j assume j: "j < n"
      show "I j (ts[i := t'] ! j) s'"
      proof (cases "j = i")
        case True
        with a len i show ?thesis by simp
      next
        case False
        with c j all have "I j (ts ! j) s'" by blast
        with False show ?thesis by simp
      qed
    qed
    with Pair True st len b show ?thesis by (simp add: resume_def pool_inv_def)
  qed
qed

lemma gather_pool_inv:
  assumes step: "\<And>i t s t' s'. i < n \<Longrightarrow> I i t s \<Longrightarrow> Q s \<Longrightarrow> step (t, s) = (t', s') \<Longrightarrow>
              I i t' s' \<and> Q s' \<and> (\<forall>j u. j < n \<longrightarrow> j \<noteq> i \<longrightarrow> I j u s \<longrightarrow> I j u s')"
    and inv: "pool_inv I Q n p"
  shows "pool_inv I Q n (gather step waiting sched p)"
proof -
  have r: "\<And>i p. pool_inv I Q n p \<Longrightarrow> pool_inv I Q n (resume step i p)"
    using step by (rule resume_pool_inv)
  have f: "\<And>i p. pool_inv I Q n p \<Longrightarrow> pool_inv I Q n (finish step i p)"
    by (simp add: finish_def r)
  have fs: "\<And>i p. pool_inv I Q n p \<Longrightarrow> pool_inv I Q n (finish_started step waiting i p)"
    by (simp add: finish_started_def f)
  have 1: "pool_inv I Q n (fold (resume step) xs p)" if "pool_inv I Q n p" for xs p
    using that by (induction xs arbitrary: p) (simp_all add: r)
  have 2: "pool_inv I Q n (fold (finish_started step waiting) xs p)" if "pool_inv I Q n p" for xs p
    using that by (induction xs arbitrary: p) (simp_all add: fs)
  have 3: "pool_inv I Q n (fold (finish step) xs p)" if "pool_inv I Q n p" for xs p
    using that by (induction xs arbitrary: p) (simp_all add: f)
  show ?thesis
    unfolding gather_def Let_def by (intro 3 2 1 inv)
qed


section \<open>The effect of the requests and of a cycle of the stability monitor\<close>

lemma sending_simps [simp]:
  "sent (sending r w) = sent w @ [r]"
  "working (sending r w) = working w"
  "stable (sending r w) = stable w"
  "ticks (sending r w) = ticks w"
  by (simp_all add: sending_def)

lemma store_post_simps [simp]:
  "sent (store_post e c d w) = sent w"
  "ticks (store_post e c d w) = ticks w"
  "working (store_post e c d w) =
     (if c = Working \<and> post_reply e c d = Inr 200
      then working w @ [(fresh_key (working w), d)] else working w)"
  "stable (store_post e c d w) =
     (if c = Stable \<and> post_reply e c d = Inr 200
      then stable w @ [(fresh_key (stable w), d)] else stable w)"
  by (cases c; simp add: store_post_def contents_def set_contents_def)+

lemma store_delete_simps [simp]:
  "sent (store_delete e c k w) = sent w"
  "ticks (store_delete e c k w) = ticks w"
  "working (store_delete e c k w) =
     (if c = Working \<and> delete_reply e c k = Inr 200
      then filter (\<lambda>(k', v). k' \<noteq> k) (working w) else working w)"
  "stable (store_delete e c k w) =
     (if c = Stable \<and> delete_reply e c k = Inr 200
      then filter (\<lambda>(k', v). k' \<noteq> k) (stable w) else stable w)"
  by (cases c; simp add: store_delete_def contents_def set_contents_def)+

lemma store_read_ok:
  "read_reply e c = Inr (200, None) \<Longrightarrow> store_read e c w = Inr (Response 200 (Inr (contents w c)))"
  by (simp add: store_read_def)

lemma contents_simps [simp]:
  "contents w Working = working w"
  "contents w Stable = stable w"
  by (simp_all add: contents_def)

lemmas http_defs = http_get_json_def http_post_def http_delete_def get_existing_proxies_def time_time_def

lemma extends_refl [simp]: "extends xs xs P"
  by (simp add: extends_def)

lemma extends_snoc: "extends xs ys P \<Longrightarrow> P y \<Longrightarrow> extends xs (ys @ [y]) P"
  by (auto simp add: extends_def)

lemma extends_trans: "extends xs ys P \<Longrightarrow> extends ys zs P \<Longrightarrow> extends xs zs P"
  by (auto simp add: extends_def)

lemma extends_mono: "extends xs ys P \<Longrightarrow> (\<And>x. P x \<Longrightarrow> Q x) \<Longrightarrow> extends xs ys Q"
  by (auto simp add: extends_def)

lemma extends_added: "extends xs ys P \<Longrightarrow> ys = xs @ added xs ys \<and> (\<forall>x \<in> set (added xs ys). P x)"
  by (auto simp add: extends_def added_def)

lemma extends_set: "extends xs ys P \<Longrightarrow> set xs \<subseteq> set ys"
  by (auto simp add: extends_def)

lemma extends_all: "extends xs ys P \<Longrightarrow> \<forall>x \<in> set xs. P x \<Longrightarrow> \<forall>x \<in> set ys. P x"
  by (auto simp add: extends_def)

lemma extends_append: "\<forall>x \<in> set new. P x \<Longrightarrow> extends xs (xs @ new) P"
  by (auto simp add: extends_def)

lemma promoted_from_mono:
  "promoted_from thr t data d \<Longrightarrow> set data \<subseteq> set data' \<Longrightarrow> promoted_from thr t data' d"
  unfolding promoted_from_def by blast

lemma promoted_from_head:
  "promoted_from thr t [entry] d \<Longrightarrow> promoted_from thr t (entry # entries) d"
  by (rule promoted_from_mono) auto

lemma promoted_from_tail:
  "promoted_from thr t entries d \<Longrightarrow> promoted_from thr t (entry # entries) d"
  by (rule promoted_from_mono) auto

lemma promote_entry_effect:
  fixes thr e t entry se w
  defines "w' \<equiv> snd (state_of (promote_entry thr e t entry (se, w)))"
  shows "working w' = working w \<and> ticks w' = ticks w
       \<and> extends (stable w) (stable w') (\<lambda>(k, d). promoted_from thr t [entry] d)
       \<and> extends (sent w) (sent w') (\<lambda>r. \<exists>d. r = Post Stable d \<and> promoted_from thr t [entry] d)"
proof (cases entry)
  case (Pair key val)
  show ?thesis
  proof (cases "age_of t val")
    case (Inl x)
    then have "w' = w" using Pair
      by (simp add: w'_def promote_entry_def age_of_def)
    then show ?thesis by simp
  next
    case (Inr age)
    show ?thesis
    proof (cases "thr \<le> age \<and> dict_get val ''address'' \<notin> se")
      case False
      then have "w' = w" using Pair Inr
        by (auto simp add: w'_def promote_entry_def age_of_def)
      then show ?thesis by simp
    next
      case True
      let ?d = "stable_data (dict_get val ''address'') t key age"
      have pf: "promoted_from thr t [entry] ?d"
        using Pair Inr True by (simp add: promoted_from_def)
      have eq: "w' = store_post e Stable ?d (sending (Post Stable ?d) w)"
        using Pair Inr True
        by (auto simp add: w'_def promote_entry_def age_of_def http_defs Let_def split: sum.splits)
      show ?thesis
        unfolding eq using pf by (auto intro!: extends_snoc)
    qed
  qed
qed

lemma promote_all_effect:
  fixes thr e t data se w
  defines "w' \<equiv> snd (state_of (promote_all thr e t data (se, w)))"
  shows "working w' = working w \<and> ticks w' = ticks w
       \<and> extends (stable w) (stable w') (\<lambda>(k, d). promoted_from thr t data d)
       \<and> extends (sent w) (sent w') (\<lambda>r. \<exists>d. r = Post Stable d \<and> promoted_from thr t data d)"
  unfolding w'_def
proof (induction data arbitrary: se w)
  case Nil
  show ?case by simp
next
  case (Cons entry entries)
  let ?P = "\<lambda>data (k, d). promoted_from thr t data d"
  let ?R = "\<lambda>data r. \<exists>d. r = Post Stable d \<and> promoted_from thr t data d"
  obtain se1 w1 where p1: "state_of (promote_entry thr e t entry (se, w)) = (se1, w1)"
    by (cases "state_of (promote_entry thr e t entry (se, w))")
  have 1: "working w1 = working w" "ticks w1 = ticks w"
    "extends (stable w) (stable w1) (?P [entry])" "extends (sent w) (sent w1) (?R [entry])"
    using promote_entry_effect[of thr e t entry se w] p1 by simp_all
  have m1: "extends (stable w) (stable w1) (?P (entry # entries))"
    "extends (sent w) (sent w1) (?R (entry # entries))"
    by (rule extends_mono[OF 1(3)], auto intro: promoted_from_head)
       (rule extends_mono[OF 1(4)], auto intro: promoted_from_head)
  show ?case
  proof (cases "promote_entry thr e t entry (se, w)")
    case (Raised x p')
    with p1 have "snd (state_of (promote_all thr e t (entry # entries) (se, w))) = w1" by simp
    then show ?thesis using 1(1,2) m1 by simp
  next
    case (Normal p')
    let ?w2 = "snd (state_of (promote_all thr e t entries (se1, w1)))"
    from Normal p1 have eq: "snd (state_of (promote_all thr e t (entry # entries) (se, w))) = ?w2"
      by simp
    have 2: "working ?w2 = working w1" "ticks ?w2 = ticks w1"
      "extends (stable w1) (stable ?w2) (?P entries)" "extends (sent w1) (sent ?w2) (?R entries)"
      using Cons.IH[of se1 w1] by simp_all
    have m2: "extends (stable w1) (stable ?w2) (?P (entry # entries))"
      "extends (sent w1) (sent ?w2) (?R (entry # entries))"
      by (rule extends_mono[OF 2(3)], auto intro: promoted_from_tail)
         (rule extends_mono[OF 2(4)], auto intro: promoted_from_tail)
    show ?thesis unfolding eq
      using 1(1,2) 2(1,2) extends_trans[OF m1(1) m2(1)] extends_trans[OF m1(2) m2(2)] by simp
  qed
qed

lemma except_Exception_Normal: "except_Exception r = Normal (state_of r)"
  by (cases r) simp_all

lemma stability_cycle_Normal: "stability_cycle thr e w = Normal (state_of (stability_body thr e w))"
  by (simp add: stability_cycle_def except_Exception_Normal)

lemma stability_body_effect:
  fixes thr e w
  defines "w' \<equiv> state_of (stability_body thr e w)"
  shows "working w' = working w
       \<and> extends (stable w) (stable w') (\<lambda>(k, d). promoted_from thr (clock e (ticks w)) (working w) d)
       \<and> extends (sent w) (sent w') (stability_request thr (clock e (ticks w)) (working w))"
proof -
  let ?w1 = "sending (Get_json Working) w"
  let ?t = "clock e (ticks w)"
  let ?data = "working w"
  have g1: "extends (sent w) (sent ?w1) (stability_request thr ?t ?data)"
    by (auto intro!: extends_snoc simp add: stability_request_def)
  show ?thesis
  proof (cases "read_reply e Working = Inr (200, None) \<and> working w \<noteq> []")
    case False
    then have "w' = ?w1"
      unfolding w'_def stability_body_def http_defs store_read_def
      by (auto split: sum.splits option.splits prod.splits)
    with g1 show ?thesis by simp
  next
    case True
    let ?w2 = "?w1\<lparr>ticks := Suc (ticks w)\<rparr>"
    let ?w3 = "sending (Get_json Stable) ?w2"
    let ?se = "existing_of (store_read e Stable ?w2)"
    let ?r = "promote_all thr e ?t ?data (?se, ?w3)"
    have body: "stability_body thr e w =
        (case ?r of Normal (known, w4) \<Rightarrow> Normal w4 | Raised x (known, w4) \<Rightarrow> Raised x w4)"
      using True unfolding stability_body_def http_defs
      by (simp add: store_read_ok)
    have eq: "w' = snd (state_of ?r)"
      unfolding w'_def body by (cases ?r) (auto split: prod.splits)
    have n: "working w' = working ?w3"
      "extends (stable ?w3) (stable w') (\<lambda>(k, d). promoted_from thr ?t ?data d)"
      "extends (sent ?w3) (sent w') (\<lambda>r. \<exists>d. r = Post Stable d \<and> promoted_from thr ?t ?data d)"
      unfolding eq using promote_all_effect[of thr e ?t ?data ?se ?w3] by simp_all
    have g3: "extends (sent w) (sent ?w3) (stability_request thr ?t ?data)"
      by (auto intro!: extends_append simp add: stability_request_def)
    have "extends (sent ?w3) (sent w') (stability_request thr ?t ?data)"
      using n(3) by (rule extends_mono) (auto simp add: stability_request_def)
    with g3 have "extends (sent w) (sent w') (stability_request thr ?t ?data)"
      by (rule extends_trans)
    with n(1,2) show ?thesis by simp
  qed
qed

section \<open>Every task of a pool finishes\<close>

lemma resume_eq:
  "i < length ts \<Longrightarrow>
   resume step i (ts, s) = (ts[i := fst (step (ts ! i, s))], snd (step (ts ! i, s)))"
  by (simp add: resume_def split: prod.splits)

lemma resume_out: "\<not> i < length ts \<Longrightarrow> resume step i (ts, s) = (ts, s)"
  by (simp add: resume_def)

lemma finish_eq:
  assumes "i < length ts"
  shows "finish step i (ts, s) =
         (ts[i := fst (thrice step (ts ! i, s))], snd (thrice step (ts ! i, s)))"
  using assms by (simp add: finish_def resume_eq thrice_def)

lemma length_filter_update:
  assumes "i < length ts"
  shows "length (filter P (ts[i := t])) + (if P (ts ! i) then 1 else 0)
         = length (filter P ts) + (if P t then 1 else 0)"
proof -
  have 1: "ts = take i ts @ ts ! i # drop (Suc i) ts"
    using assms by (simp add: id_take_nth_drop)
  have 2: "ts[i := t] = take i ts @ t # drop (Suc i) ts"
    using assms by (simp add: upd_conv_take_nth_drop)
  have "length (filter P ts) = length (filter P (take i ts @ ts ! i # drop (Suc i) ts))"
    using 1 by simp
  then show ?thesis unfolding 2 by simp
qed

lemma resume_permits_ok:
  assumes acc: "\<And>t s. in_flight (snd (step (t, s)))
                  = in_flight s + (if holding waiting finished (fst (step (t, s))) then 1 else 0)
                    - (if holding waiting finished t then 1 else 0)"
    and ok: "permits_ok waiting finished p"
  shows "permits_ok waiting finished (resume step i p)"
proof (cases p)
  case (Pair ts s)
  show ?thesis
  proof (cases "i < length ts")
    case False
    with Pair ok show ?thesis by (simp add: resume_out)
  next
    case True
    let ?H = "holding waiting finished"
    let ?t' = "fst (step (ts ! i, s))"
    have u: "length (filter ?H (ts[i := ?t'])) + (if ?H (ts ! i) then 1 else 0)
             = length (filter ?H ts) + (if ?H ?t' then 1 else 0)"
      using True by (rule length_filter_update)
    have f: "in_flight s = length (filter ?H ts)" using ok Pair by (simp add: permits_ok_def)
    have "in_flight (snd (step (ts ! i, s))) = length (filter ?H (ts[i := ?t']))"
      using acc[of "ts ! i" s] u f by (simp split: if_splits)
    then show ?thesis using Pair True by (simp add: resume_eq permits_ok_def)
  qed
qed

lemma length_resume [simp]: "length (fst (resume step i p)) = length (fst p)"
  by (cases p) (simp add: resume_def split: prod.splits)

lemma length_finish [simp]: "length (fst (finish step i p)) = length (fst p)"
  by (simp add: finish_def)

lemma length_finish_started [simp]: "length (fst (finish_started step waiting i p)) = length (fst p)"
  by (simp add: finish_started_def)

lemma length_fold_resume [simp]: "length (fst (fold (resume step) xs p)) = length (fst p)"
  by (induction xs arbitrary: p) simp_all

lemma length_fold_finish [simp]: "length (fst (fold (finish step) xs p)) = length (fst p)"
  by (induction xs arbitrary: p) simp_all

lemma length_fold_finish_started [simp]:
  "length (fst (fold (finish_started step waiting) xs p)) = length (fst p)"
  by (induction xs arbitrary: p) simp_all

lemma length_gather [simp]: "length (fst (gather step waiting sched p)) = length (fst p)"
  by (simp add: gather_def Let_def)

lemma gather_all_finished:
  fixes step :: "'t \<times> 'm shared \<Rightarrow> 't \<times> 'm shared"
  assumes stay: "\<And>t s. finished t \<Longrightarrow> step (t, s) = (t, s)"
    and acc: "\<And>t s. in_flight (snd (step (t, s)))
                  = in_flight s + (if holding waiting finished (fst (step (t, s))) then 1 else 0)
                    - (if holding waiting finished t then 1 else 0)"
    and held: "\<And>t s. holding waiting finished t \<Longrightarrow> finished (fst (thrice step (t, s)))"
    and free: "\<And>t s. waiting t \<Longrightarrow> in_flight s = 0 \<Longrightarrow> finished (fst (thrice step (t, s)))"
    and ok: "permits_ok waiting finished p"
  shows "\<forall>t \<in> set (fst (gather step waiting sched p)). finished t"
proof -
  let ?H = "holding waiting finished"
  let ?ok = "permits_ok waiting finished"
  have r: "?ok (resume step i q)" if "?ok q" for i q
    using acc that by (rule resume_permits_ok)
  have f: "?ok (finish step i q)" if "?ok q" for i q
    using that by (simp add: finish_def r)
  have fs: "?ok (finish_started step waiting i q)" if "?ok q" for i q
    using that by (simp add: finish_started_def f)
  define p1 where "p1 = fold (resume step) sched p"
  have ok1: "?ok p1" unfolding p1_def using ok by (induction sched arbitrary: p) (simp_all add: r)
  define n where "n = length (fst p1)"
  have stay3: "thrice step (t, s) = (t, s)" if "finished t" for t s
    using that by (simp add: thrice_def stay)
  \<comment> \<open>first pass: no task holds a permit any more\<close>
  have pass1: "k \<le> n \<Longrightarrow>
      (let q = fold (finish_started step waiting) [0..<k] p1
       in ?ok q \<and> length (fst q) = n \<and> (\<forall>j<k. \<not> ?H (fst q ! j)))" for k
  proof (induction k)
    case 0
    show ?case using ok1 by (simp add: n_def)
  next
    case (Suc k)
    define q where "q = fold (finish_started step waiting) [0..<k] p1"
    obtain ts s where q: "q = (ts, s)" by (cases q)
    from Suc have IH: "?ok q" "length ts = n" "\<forall>j<k. \<not> ?H (ts ! j)" and k: "k < n"
      by (simp_all add: q_def[symmetric] q Let_def)
    have step: "fold (finish_started step waiting) [0..<Suc k] p1 = finish_started step waiting k q"
      by (simp add: q_def)
    have a: "?ok (finish_started step waiting k q)" using IH(1) by (rule fs)
    have b: "\<forall>j<Suc k. \<not> ?H (fst (finish_started step waiting k q) ! j)"
    proof (intro allI impI)
      fix j assume j: "j < Suc k"
      show "\<not> ?H (fst (finish_started step waiting k q) ! j)"
      proof (cases "waiting (ts ! k)")
        case True
        then have "finish_started step waiting k q = q" using q k IH(2) by (simp add: finish_started_def)
        moreover have "\<not> ?H (ts ! k)" using True by (simp add: holding_def)
        ultimately show ?thesis using IH(3) j q by (cases "j = k") auto
      next
        case False
        then have e: "fst (finish_started step waiting k q) = ts[k := fst (thrice step (ts ! k, s))]"
          using q k IH(2) by (simp add: finish_started_def finish_eq)
        have "finished (fst (thrice step (ts ! k, s)))"
        proof (cases "finished (ts ! k)")
          case True
          then show ?thesis by (simp add: stay3)
        next
          case nf: False
          with False have "?H (ts ! k)" by (simp add: holding_def)
          then show ?thesis by (rule held)
        qed
        then have "\<not> ?H (fst (thrice step (ts ! k, s)))" by (simp add: holding_def)
        then show ?thesis using e IH(2,3) j k by (cases "j = k") auto
      qed
    qed
    show ?case unfolding step Let_def using a b IH(2) q by simp
  qed
  define p2 where "p2 = fold (finish_started step waiting) [0..<n] p1"
  from pass1[of n] have ok2: "?ok p2" and len2: "length (fst p2) = n"
    and free2: "\<forall>j<n. \<not> ?H (fst p2 ! j)"
    by (simp_all add: p2_def Let_def)
  \<comment> \<open>second pass: the tasks finish one after the other\<close>
  have pass2: "k \<le> n \<Longrightarrow>
      (let q = fold (finish step) [0..<k] p2
       in ?ok q \<and> length (fst q) = n \<and> (\<forall>j<n. \<not> ?H (fst q ! j)) \<and> (\<forall>j<k. finished (fst q ! j)))" for k
  proof (induction k)
    case 0
    show ?case using ok2 len2 free2 by simp
  next
    case (Suc k)
    define q where "q = fold (finish step) [0..<k] p2"
    obtain ts s where q: "q = (ts, s)" by (cases q)
    from Suc have IH: "?ok q" "length ts = n" "\<forall>j<n. \<not> ?H (ts ! j)" "\<forall>j<k. finished (ts ! j)"
      and k: "k < n"
      by (simp_all add: q_def[symmetric] q Let_def)
    have step: "fold (finish step) [0..<Suc k] p2 = finish step k q"
      by (simp add: q_def)
    have "filter ?H ts = []"
      using IH(2,3) by (auto simp add: filter_empty_conv in_set_conv_nth)
    then have zero: "in_flight s = 0" using IH(1) q by (simp add: permits_ok_def)
    have e: "fst (finish step k q) = ts[k := fst (thrice step (ts ! k, s))]"
      using q k IH(2) by (simp add: finish_eq)
    have fin: "finished (fst (thrice step (ts ! k, s)))"
    proof (cases "finished (ts ! k)")
      case True
      then show ?thesis by (simp add: stay3)
    next
      case False
      moreover have "\<not> ?H (ts ! k)" using IH(3) k by simp
      ultimately have "waiting (ts ! k)" by (simp add: holding_def)
      then show ?thesis using zero by (rule free)
    qed
    have a: "?ok (finish step k q)" using IH(1) by (rule f)
    have b: "\<forall>j<n. \<not> ?H (fst (finish step k q) ! j)"
    proof (intro allI impI)
      fix j assume "j < n"
      then show "\<not> ?H (fst (finish step k q) ! j)"
        using e fin IH(2,3) k by (cases "j = k") (auto simp add: holding_def)
    qed
    have c: "\<forall>j<Suc k. finished (fst (finish step k q) ! j)"
    proof (intro allI impI)
      fix j assume "j < Suc k"
      then show "finished (fst (finish step k q) ! j)"
        using e fin IH(2,4) k by (cases "j = k") auto
    qed
    show ?case unfolding step Let_def using a b c IH(2) q by simp
  qed
  have g: "gather step waiting sched p = fold (finish step) [0..<n] p2"
    by (simp add: gather_def Let_def p1_def p2_def n_def)
  from pass2[of n] have "length (fst (gather step waiting sched p)) = n"
    and "\<forall>j<n. finished (fst (gather step waiting sched p) ! j)"
    by (simp_all add: g Let_def)
  then show ?thesis by (auto simp add: in_set_conv_nth)
qed

section \<open>The tasks of the fetch loop\<close>

lemma length_le_foldr_max:
  "(k, v) \<in> set xs \<Longrightarrow> length k \<le> foldr max (map (\<lambda>(k, v). length k) xs) 0"
  by (induction xs) auto

lemma fresh_key_fresh: "fresh_key xs \<notin> fst ` set xs"
proof
  assume "fresh_key xs \<in> fst ` set xs"
  then obtain v where "(fresh_key xs, v) \<in> set xs" by auto
  from length_le_foldr_max[OF this] show False by (simp add: fresh_key_def)
qed

lemma release_simps [simp]:
  "mem (release s) = mem s"
  "world (release s) = world s"
  "in_flight (release s) = in_flight s - 1"
  by (simp_all add: release_def)

lemma ingest_ok_world:
  assumes "ingest_ok e cands known0 w0 s"
    and "known0 \<subseteq> mem s'"
    and "stable (world s') = stable (world s)"
    and "extends (working (world s)) (working (world s')) (\<lambda>(k, d). validated_record e cands known0 d)"
    and "extends (sent (world s)) (sent (world s')) (fetch_request e cands known0)"
    and "distinct (map fst (working (world s))) \<longrightarrow> distinct (map fst (working (world s')))"
  shows "ingest_ok e cands known0 w0 s'"
  using assms unfolding ingest_ok_def by (auto intro: extends_trans)

lemma validate_step_ok:
  assumes t: "vtask_ok e cands known0 t" and s: "ingest_ok e cands known0 w0 s"
    and st: "validate_step e (t, s) = (t', s')"
  shows "vtask_ok e cands known0 t' \<and> ingest_ok e cands known0 w0 s'"
proof (cases t)
  case (V_start raw)
  show ?thesis
  proof (cases "in_flight s < CONCURRENCY_LIMIT \<and> py_strip raw \<noteq> [] \<and> PStr (py_strip raw) \<notin> mem s")
    case True
    then have "t' = V_probe (py_strip raw)" "s' = s\<lparr>in_flight := Suc (in_flight s)\<rparr>"
      using st V_start by (simp_all add: Let_def)
    moreover have "candidate_ok cands known0 (py_strip raw)"
      using True t s V_start by (auto simp add: candidate_ok_def ingest_ok_def)
    ultimately show ?thesis using s by (simp add: ingest_ok_def)
  next
    case False
    then have "(t' = V_done \<or> t' = t) \<and> s' = s"
      using st V_start by (auto simp add: Let_def split: if_splits)
    then show ?thesis using t s by auto
  qed
next
  case (V_probe a)
  then have a: "candidate_ok cands known0 a" using t by simp
  let ?w1 = "sending (Get_via (PStr a)) (world s)"
  have m: "known0 \<subseteq> mem s" using s by (simp add: ingest_ok_def)
  have r: "fetch_request e cands known0 (Get_via (PStr a))"
    using a by (simp add: fetch_request_def)
  show ?thesis
  proof (cases "is_proxy_alive e (PStr a)")
    case True
    then have t': "t' = V_post a (proxy_data a (clock e (ticks (world s))) (clock e (Suc (ticks (world s)))))"
      and s': "s' = s\<lparr>world := ?w1\<lparr>ticks := Suc (Suc (ticks (world s)))\<rparr>\<rparr>"
      using st V_probe by (simp_all add: Let_def time_time_def)
    have "vtask_ok e cands known0 t'" unfolding t' using a True by auto
    moreover have "ingest_ok e cands known0 w0 s'"
      using s by (rule ingest_ok_world) (use m r in \<open>auto simp add: s' intro!: extends_snoc\<close>)
    ultimately show ?thesis by simp
  next
    case False
    then have t': "t' = V_done" and s': "s' = release (s\<lparr>world := ?w1\<rparr>)"
      using st V_probe by (simp_all add: Let_def)
    have "ingest_ok e cands known0 w0 s'"
      using s by (rule ingest_ok_world) (use m r in \<open>auto simp add: s' intro!: extends_snoc\<close>)
    then show ?thesis using t' by simp
  qed
next
  case (V_post a d)
  then have a: "candidate_ok cands known0 a" and al: "is_proxy_alive e (PStr a)"
    and vd: "validated_record e cands known0 d"
    using t by (auto simp add: validated_record_def)
  let ?w4 = "store_post e Working d (sending (Post Working d) (world s))"
  have m0: "known0 \<subseteq> mem s" using s by (simp add: ingest_ok_def)
  have t': "t' = V_done" and m: "known0 \<subseteq> mem s'" and w: "world s' = ?w4"
    using st V_post m0 by (auto simp add: http_defs split: sum.splits if_splits)
  have r: "fetch_request e cands known0 (Post Working d)"
    using vd by (auto simp add: fetch_request_def)
  have "ingest_ok e cands known0 w0 s'"
    using s m
  proof (rule ingest_ok_world)
    show "stable (world s') = stable (world s)" by (simp add: w)
    show "extends (working (world s)) (working (world s')) (\<lambda>(k, d). validated_record e cands known0 d)"
      using vd by (auto simp add: w intro!: extends_snoc)
    show "extends (sent (world s)) (sent (world s')) (fetch_request e cands known0)"
      using r by (auto simp add: w intro!: extends_snoc)
    show "distinct (map fst (working (world s))) \<longrightarrow> distinct (map fst (working (world s')))"
      using fresh_key_fresh[of "working (world s)"] by (auto simp add: w)
  qed
  then show ?thesis using t' by simp
next
  case V_done
  then show ?thesis using st t s by auto
qed

lemma validate_gather_ok:
  assumes "ingest_ok e cands known0 w0 s"
  shows "ingest_ok e cands known0 w0 (snd (gather (validate_step e) v_waiting sched (map V_start cands, s)))"
proof -
  let ?I = "\<lambda>i t s. vtask_ok e cands known0 t"
  let ?Q = "ingest_ok e cands known0 w0"
  have "pool_inv ?I ?Q (length cands) (gather (validate_step e) v_waiting sched (map V_start cands, s))"
  proof (rule gather_pool_inv)
    show "pool_inv ?I ?Q (length cands) (map V_start cands, s)"
      using assms by (simp add: pool_inv_def)
  next
    fix i t s t' s'
    assume "vtask_ok e cands known0 t" "ingest_ok e cands known0 w0 s" "validate_step e (t, s) = (t', s')"
    then have "vtask_ok e cands known0 t' \<and> ingest_ok e cands known0 w0 s'"
      by (rule validate_step_ok)
    then show "vtask_ok e cands known0 t' \<and> ingest_ok e cands known0 w0 s' \<and>
       (\<forall>j u. j < length cands \<longrightarrow> j \<noteq> i \<longrightarrow> vtask_ok e cands known0 u \<longrightarrow> vtask_ok e cands known0 u)"
      by simp
  qed
  then show ?thesis by (simp add: pool_inv_def)
qed

lemma validate_gather_finished:
  assumes "in_flight s = 0"
  shows "\<forall>t \<in> set (fst (gather (validate_step e) v_waiting sched (map V_start cands, s))). t = V_done"
proof (rule gather_all_finished[where finished = "\<lambda>t. t = V_done"])
  fix t and s :: "pyval set shared"
  show "t = V_done \<Longrightarrow> validate_step e (t, s) = (t, s)" by simp
  show "in_flight (snd (validate_step e (t, s)))
        = in_flight s + (if holding v_waiting (\<lambda>t. t = V_done) (fst (validate_step e (t, s))) then 1 else 0)
          - (if holding v_waiting (\<lambda>t. t = V_done) t then 1 else 0)"
    by (cases t) (auto simp add: holding_def Let_def http_defs split: sum.splits)
  show "holding v_waiting (\<lambda>t. t = V_done) t \<Longrightarrow> fst (thrice (validate_step e) (t, s)) = V_done"
    by (cases t) (auto simp add: holding_def thrice_def Let_def http_defs split: sum.splits)
  show "v_waiting t \<Longrightarrow> in_flight s = 0 \<Longrightarrow> fst (thrice (validate_step e) (t, s)) = V_done"
    by (cases t) (auto simp add: thrice_def Let_def http_defs CONCURRENCY_LIMIT_def split: sum.splits)
next
  show "permits_ok v_waiting (\<lambda>t. t = V_done) (map V_start cands, s)"
    using assms by (simp add: permits_ok_def holding_def filter_empty_conv)
qed

section \<open>The tasks of the cleanup loop\<close>

lemma cleanup_tasks_pairs: "cleanup_tasks data = map (\<lambda>(k, a). C_start k a) (cleanup_pairs data)"
  by (simp add: cleanup_tasks_def cleanup_pairs_def split_def)

lemma cleanup_pairs_keys:
  "map fst (cleanup_pairs data) = map fst (filter (\<lambda>(key, val). truthy (dict_get val ''address'')) data)"
  by (simp add: cleanup_pairs_def split_def)

lemma distinct_cleanup_pairs:
  "distinct (map fst data) \<Longrightarrow> distinct (map fst (cleanup_pairs data))"
  unfolding cleanup_pairs_keys by (rule distinct_map_filter)

lemma cleanup_pairs_truthy: "(k, a) \<in> set (cleanup_pairs data) \<Longrightarrow> truthy a"
  by (auto simp add: cleanup_pairs_def)

lemma cleanup_pairs_mem:
  "(k, a) \<in> set (cleanup_pairs data) \<Longrightarrow> \<exists>v. (k, v) \<in> set data \<and> a = dict_get v ''address''"
  by (auto simp add: cleanup_pairs_def)

lemma cleanup_request_probe:
  "(k, a) \<in> set pairs \<Longrightarrow> cleanup_request e pairs (Get_via a)"
  unfolding cleanup_request_def by (intro disjI2 disjI1 bexI[of _ "(k, a)"]) simp_all

lemma cleanup_request_delete:
  "(k, a) \<in> set pairs \<Longrightarrow> \<not> is_proxy_alive e a \<Longrightarrow> cleanup_request e pairs (Delete Working k)"
  unfolding cleanup_request_def by (intro disjI2 bexI[of _ "(k, a)"]) simp_all

lemma cleanup_ok_step:
  assumes "cleanup_ok e pairs w0 w"
    and "stable w' = stable w"
    and "extends (sent w) (sent w') (cleanup_request e pairs)"
    and "working w' = working w \<or> (\<exists>k \<in> dead_keys e pairs. working w' = filter (\<lambda>(k', v). k' \<noteq> k) (working w))"
  shows "cleanup_ok e pairs w0 w'"
proof -
  from assms(1) have 0: "stable w = stable w0" "extends (sent w0) (sent w) (cleanup_request e pairs)"
    "set (working w) \<subseteq> set (working w0)"
    "\<forall>(k, v) \<in> set (working w0). k \<notin> dead_keys e pairs \<longrightarrow> (k, v) \<in> set (working w)"
    "distinct (map fst (working w0)) \<longrightarrow> distinct (map fst (working w))"
    by (simp_all add: cleanup_ok_def)
  have a: "set (working w') \<subseteq> set (working w0)" using assms(4) 0(3) by auto
  have b: "\<forall>(k, v) \<in> set (working w0). k \<notin> dead_keys e pairs \<longrightarrow> (k, v) \<in> set (working w')"
    using assms(4) 0(4) by auto
  have c: "distinct (map fst (working w0)) \<longrightarrow> distinct (map fst (working w'))"
    using assms(4) 0(5) by (auto simp add: distinct_map_filter)
  show ?thesis
    unfolding cleanup_ok_def using 0(1) assms(2) extends_trans[OF 0(2) assms(3)] a b c by simp
qed

lemma check_step_in:
  assumes t: "ctask_in e pairs t" and s: "cleanup_ok e pairs w0 (world s)"
    and st: "check_step e (t, s) = (t', s')"
  shows "ctask_in e pairs t' \<and> cleanup_ok e pairs w0 (world s')"
proof (cases t)
  case (C_start k a)
  then have "(t' = C_probe k a \<or> t' = t) \<and> world s' = world s"
    using st by (auto split: if_splits)
  then show ?thesis using t s C_start by auto
next
  case (C_probe k a)
  then have ka: "(k, a) \<in> set pairs" using t by simp
  have w: "world s' = sending (Get_via a) (world s)"
    using st C_probe by (auto simp add: Let_def split: if_splits)
  have t': "ctask_in e pairs t'"
    using st C_probe ka by (auto simp add: Let_def split: if_splits)
  have "cleanup_ok e pairs w0 (world s')"
    using s by (rule cleanup_ok_step)
      (use cleanup_request_probe[OF ka] in \<open>auto simp add: w intro!: extends_snoc\<close>)
  with t' show ?thesis by simp
next
  case (C_delete k a)
  then have ka: "(k, a) \<in> set pairs" and dead: "\<not> is_proxy_alive e a" using t by simp_all
  have w: "world s' = store_delete e Working k (sending (Delete Working k) (world s))"
    and t': "t' = C_done"
    using st C_delete by (auto simp add: http_defs)
  have dk: "k \<in> dead_keys e pairs" using ka dead by (auto simp add: dead_keys_def)
  have "cleanup_ok e pairs w0 (world s')"
    using s
  proof (rule cleanup_ok_step)
    show "stable (world s') = stable (world s)" by (simp add: w)
    show "extends (sent (world s)) (sent (world s')) (cleanup_request e pairs)"
      using cleanup_request_delete[OF ka dead] by (auto simp add: w intro!: extends_snoc)
    show "working (world s') = working (world s)
          \<or> (\<exists>k \<in> dead_keys e pairs. working (world s') = filter (\<lambda>(k', v). k' \<noteq> k) (working (world s)))"
      using dk by (auto simp add: w)
  qed
  with t' show ?thesis by simp
next
  case C_done
  then show ?thesis using st t s by auto
qed

lemma check_gather_in:
  assumes "cleanup_ok e pairs w0 (world s)"
  shows "cleanup_ok e pairs w0
           (world (snd (gather (check_step e) c_waiting sched (map (\<lambda>(k, a). C_start k a) pairs, s))))"
proof -
  let ?I = "\<lambda>(i::nat) t (s::unit shared). ctask_in e pairs t"
  let ?Q = "\<lambda>s::unit shared. cleanup_ok e pairs w0 (world s)"
  have "pool_inv ?I ?Q (length pairs)
          (gather (check_step e) c_waiting sched (map (\<lambda>(k, a). C_start k a) pairs, s))"
  proof (rule gather_pool_inv)
    show "pool_inv ?I ?Q (length pairs) (map (\<lambda>(k, a). C_start k a) pairs, s)"
      using assms by (auto simp add: pool_inv_def split_def)
  next
    fix i t and s :: "unit shared" and t' s'
    assume "ctask_in e pairs t" "cleanup_ok e pairs w0 (world s)" "check_step e (t, s) = (t', s')"
    then have "ctask_in e pairs t' \<and> cleanup_ok e pairs w0 (world s')"
      by (rule check_step_in)
    then show "ctask_in e pairs t' \<and> cleanup_ok e pairs w0 (world s') \<and>
       (\<forall>j u. j < length pairs \<longrightarrow> j \<noteq> i \<longrightarrow> ctask_in e pairs u \<longrightarrow> ctask_in e pairs u)"
      by simp
  qed
  then show ?thesis by (simp add: pool_inv_def)
qed

lemma check_gather_finished:
  assumes "in_flight s = 0"
  shows "\<forall>t \<in> set (fst (gather (check_step e) c_waiting sched (map (\<lambda>(k, a). C_start k a) pairs, s))). t = C_done"
proof (rule gather_all_finished[where finished = "\<lambda>t. t = C_done"])
  fix t and s :: "unit shared"
  show "t = C_done \<Longrightarrow> check_step e (t, s) = (t, s)" by simp
  show "in_flight (snd (check_step e (t, s)))
        = in_flight s + (if holding c_waiting (\<lambda>t. t = C_done) (fst (check_step e (t, s))) then 1 else 0)
          - (if holding c_waiting (\<lambda>t. t = C_done) t then 1 else 0)"
    by (cases t) (auto simp add: holding_def Let_def)
  show "holding c_waiting (\<lambda>t. t = C_done) t \<Longrightarrow> fst (thrice (check_step e) (t, s)) = C_done"
    by (cases t) (auto simp add: holding_def thrice_def Let_def)
  show "c_waiting t \<Longrightarrow> in_flight s = 0 \<Longrightarrow> fst (thrice (check_step e) (t, s)) = C_done"
    by (cases t) (auto simp add: thrice_def Let_def CONCURRENCY_LIMIT_def)
next
  show "permits_ok c_waiting (\<lambda>t. t = C_done) (map (\<lambda>(k, a). C_start k a) pairs, s)"
    using assms by (auto simp add: permits_ok_def holding_def filter_empty_conv)
qed


lemma extends_length: "extends xs ys P \<Longrightarrow> length xs \<le> length ys"
  by (auto simp add: extends_def)

lemma requests_of_sending:
  "length (sent w0) \<le> length (sent w) \<Longrightarrow> requests_of w0 (sending r w) = requests_of w0 w @ [r]"
  by (simp add: requests_of_def added_def)

lemma requests_of_store_delete [simp]:
  "requests_of w0 (store_delete e c k w) = requests_of w0 w"
  by (simp add: requests_of_def)

lemma requests_of_store_post [simp]:
  "requests_of w0 (store_post e c d w) = requests_of w0 w"
  by (simp add: requests_of_def)

lemma requests_of_self [simp]: "requests_of w w = []"
  by (simp add: requests_of_def added_def)

lemma ctask_ok_in:
  "i < length pairs \<Longrightarrow> ctask_ok e pairs w0 i t w \<Longrightarrow> ctask_in e pairs t"
  by (cases t) (auto simp add: in_set_conv_nth)

lemma ctask_ok_frame:
  assumes u: "ctask_ok e pairs w0 j u w"
    and rq: "set (requests_of w0 w') \<subseteq> insert r (set (requests_of w0 w))"
            "set (requests_of w0 w) \<subseteq> set (requests_of w0 w')"
    and r: "\<forall>k. r = Delete Working k \<longrightarrow> k \<noteq> fst (pairs ! j)"
    and wk: "set (working w') \<subseteq> set (working w)"
  shows "ctask_ok e pairs w0 j u w'"
proof -
  have m: "Delete Working (fst (pairs ! j)) \<in> set (requests_of w0 w')
           \<longleftrightarrow> Delete Working (fst (pairs ! j)) \<in> set (requests_of w0 w)"
    using rq r by auto
  show ?thesis
  proof (cases u)
    case (C_start k a)
    then show ?thesis using u m by auto
  next
    case (C_probe k a)
    then show ?thesis using u m by auto
  next
    case (C_delete k a)
    then show ?thesis using u m by auto
  next
    case C_done
    then show ?thesis using u m wk by auto
  qed
qed

lemma check_step_ok:
  assumes d: "distinct (map fst pairs)" and i: "i < length pairs"
    and t: "ctask_ok e pairs w0 i t (world s)" and s: "cleanup_ok e pairs w0 (world s)"
    and st: "check_step e (t, s) = (t', s')"
  shows "ctask_ok e pairs w0 i t' (world s') \<and> cleanup_ok e pairs w0 (world s')
       \<and> (\<forall>j u. j < length pairs \<longrightarrow> j \<noteq> i \<longrightarrow> ctask_ok e pairs w0 j u (world s)
                \<longrightarrow> ctask_ok e pairs w0 j u (world s'))"
proof -
  have "ctask_in e pairs t" using i t by (rule ctask_ok_in)
  from check_step_in[OF this s st] have s': "cleanup_ok e pairs w0 (world s')" by simp
  have len: "length (sent w0) \<le> length (sent (world s))"
    using s by (auto simp add: cleanup_ok_def dest: extends_length)
  have other: "fst (pairs ! j) \<noteq> fst (pairs ! i)" if "j < length pairs" "j \<noteq> i" for j
    using d i that by (simp add: distinct_conv_nth)
  show ?thesis
  proof (cases t)
    case (C_start k a)
    then have "(t' = C_probe k a \<or> t' = t) \<and> world s' = world s"
      using st by (auto split: if_splits)
    then show ?thesis using t s C_start by auto
  next
    case (C_probe k a)
    have w: "world s' = sending (Get_via a) (world s)"
      using st C_probe by (auto simp add: Let_def split: if_splits)
    have rq: "requests_of w0 (world s') = requests_of w0 (world s) @ [Get_via a]"
      unfolding w using len by (rule requests_of_sending)
    have me: "ctask_ok e pairs w0 i t' (world s')"
    proof (cases "is_proxy_alive e a")
      case True
      then have "t' = C_done" using st C_probe by (simp add: Let_def)
      then show ?thesis using t C_probe True rq by auto
    next
      case False
      then have "t' = C_delete k a" using st C_probe by (simp add: Let_def)
      then show ?thesis using t C_probe False rq by auto
    qed
    have fr: "ctask_ok e pairs w0 j u (world s')" if "ctask_ok e pairs w0 j u (world s)" for j u
      using that by (rule ctask_ok_frame[where r = "Get_via a"]) (auto simp add: w requests_of_sending[OF len])
    show ?thesis using me s' fr by blast
  next
    case (C_delete k a)
    have w: "world s' = store_delete e Working k (sending (Delete Working k) (world s))"
      and t': "t' = C_done"
      using st C_delete by (auto simp add: http_defs)
    have ka: "pairs ! i = (k, a)" and dead: "\<not> is_proxy_alive e a"
      using t C_delete by simp_all
    have rq: "requests_of w0 (world s') = requests_of w0 (world s) @ [Delete Working k]"
      unfolding w using len by (simp add: requests_of_sending)
    have gone: "delete_reply e Working k = Inr 200 \<Longrightarrow> k \<notin> fst ` set (working (world s'))"
      by (auto simp add: w)
    have me: "ctask_ok e pairs w0 i t' (world s')"
      unfolding t' using ka dead rq gone by simp
    have fr: "ctask_ok e pairs w0 j u (world s')"
      if "j < length pairs" "j \<noteq> i" "ctask_ok e pairs w0 j u (world s)" for j u
      using that(3)
    proof (rule ctask_ok_frame[where r = "Delete Working k"])
      show "\<forall>k'. Delete Working k = Delete Working k' \<longrightarrow> k' \<noteq> fst (pairs ! j)"
        using other[OF that(1,2)] ka by auto
    qed (auto simp add: w requests_of_sending[OF len])
    show ?thesis using me s' fr by blast
  next
    case C_done
    then show ?thesis using st t s by auto
  qed
qed

lemma check_gather_ok:
  fixes s :: "unit shared" and sched :: "nat list"
  assumes d: "distinct (map fst pairs)" and s: "cleanup_ok e pairs w0 (world s)"
    and z: "in_flight s = 0" and none: "\<forall>k. Delete Working k \<notin> set (requests_of w0 (world s))"
  defines "w' \<equiv> world (snd (gather (check_step e) c_waiting sched (map (\<lambda>(k, a). C_start k a) pairs, s)))"
  shows "\<forall>(k, a) \<in> set pairs.
           (Delete Working k \<in> set (requests_of w0 w') \<longleftrightarrow> \<not> is_proxy_alive e a)
         \<and> (\<not> is_proxy_alive e a \<and> delete_reply e Working k = Inr 200 \<longrightarrow> k \<notin> fst ` set (working w'))"
proof -
  let ?I = "\<lambda>i t (s::unit shared). ctask_ok e pairs w0 i t (world s)"
  let ?Q = "\<lambda>s::unit shared. cleanup_ok e pairs w0 (world s)"
  let ?g = "gather (check_step e) c_waiting sched (map (\<lambda>(k, a). C_start k a) pairs, s)"
  have "pool_inv ?I ?Q (length pairs) ?g"
  proof (rule gather_pool_inv)
    show "pool_inv ?I ?Q (length pairs) (map (\<lambda>(k, a). C_start k a) pairs, s)"
      using s none by (auto simp add: pool_inv_def split_def)
  next
    fix i t and s :: "unit shared" and t' s'
    assume "i < length pairs" "ctask_ok e pairs w0 i t (world s)" "cleanup_ok e pairs w0 (world s)"
      "check_step e (t, s) = (t', s')"
    with d show "ctask_ok e pairs w0 i t' (world s') \<and> cleanup_ok e pairs w0 (world s') \<and>
       (\<forall>j u. j < length pairs \<longrightarrow> j \<noteq> i \<longrightarrow> ctask_ok e pairs w0 j u (world s)
                \<longrightarrow> ctask_ok e pairs w0 j u (world s'))"
      by (rule check_step_ok)
  qed
  then have len: "length (fst ?g) = length pairs"
    and all: "\<forall>i<length pairs. ctask_ok e pairs w0 i (fst ?g ! i) w'"
    by (simp_all add: pool_inv_def w'_def)
  have fin: "\<forall>t \<in> set (fst ?g). t = C_done" using z by (rule check_gather_finished)
  show ?thesis
  proof (clarify)
    fix k a assume "(k, a) \<in> set pairs"
    then obtain i where i: "i < length pairs" "pairs ! i = (k, a)" by (auto simp add: in_set_conv_nth)
    have "fst ?g ! i = C_done" using fin len i(1) by simp
    with all i show "(Delete Working k \<in> set (requests_of w0 w') \<longleftrightarrow> \<not> is_proxy_alive e a)
         \<and> (\<not> is_proxy_alive e a \<and> delete_reply e Working k = Inr 200 \<longrightarrow> k \<notin> fst ` set (working w'))"
      by (metis ctask_ok.simps(4) fst_conv snd_conv)
  qed
qed

section \<open>The effect of a cycle of the fetch and of the cleanup loop\<close>

lemma store_read_sending [simp]: "store_read e c (sending r w) = store_read e c w"
  by (cases c) (auto simp add: store_read_def split: sum.splits option.splits prod.splits)

lemma cleanup_cycle_Normal: "cleanup_cycle e sched w = Normal (state_of (cleanup_body e sched w))"
  by (simp add: cleanup_cycle_def except_Exception_Normal)

lemma fetch_cycle_Normal:
  "fetch_and_store_cycle e sched w = Normal (state_of (fetch_and_store_body e sched w))"
  by (simp add: fetch_and_store_cycle_def except_Exception_Normal)

lemma cleanup_body_scan:
  assumes "read_reply e Working = Inr (200, None)" and "working w \<noteq> []"
  shows "state_of (cleanup_body e sched w)
         = world (snd (gather (check_step e) c_waiting sched
                    (map (\<lambda>(k, a). C_start k a) (cleanup_pairs (working w)),
                     \<lparr>mem = (), in_flight = 0, world = sending (Get_json Working) w\<rparr>)))"
  using assms unfolding cleanup_body_def http_defs
  by (simp add: store_read_ok cleanup_tasks_pairs split: prod.splits)

lemma cleanup_body_skip:
  assumes "\<not> (read_reply e Working = Inr (200, None) \<and> working w \<noteq> [])"
  shows "state_of (cleanup_body e sched w) = sending (Get_json Working) w"
  using assms unfolding cleanup_body_def http_defs store_read_def
  by (auto split: sum.splits option.splits prod.splits)

lemma cleanup_ok_start:
  "cleanup_ok e pairs w (sending (Get_json Working) w)"
  by (auto simp add: cleanup_ok_def cleanup_request_def intro!: extends_snoc)

lemma cleanup_cycle_effect:
  "cleanup_ok e (cleanup_pairs (working w)) w (state_of (cleanup_body e sched w))"
proof (cases "read_reply e Working = Inr (200, None) \<and> working w \<noteq> []")
  case True
  then show ?thesis
    by (simp add: cleanup_body_scan check_gather_in cleanup_ok_start)
next
  case False
  then show ?thesis by (simp add: cleanup_body_skip cleanup_ok_start)
qed

lemma fetch_body_gather:
  assumes "source_reply e = Inr (200, Inr text)"
  shows "state_of (fetch_and_store_body e sched w)
         = world (snd (gather (validate_step e) v_waiting sched
                    (map V_start (cycle_candidates e),
                     \<lparr>mem = cycle_known e w, in_flight = 0,
                      world = sending (Get_json Working) (sending Get_source w)\<rparr>)))"
  using assms unfolding fetch_and_store_body_def http_defs
  by (simp add: cycle_candidates_def cycle_known_def Let_def split: prod.splits)

lemma fetch_body_skip:
  assumes "\<forall>text. source_reply e \<noteq> Inr (200, Inr text)"
  shows "state_of (fetch_and_store_body e sched w) = sending Get_source w"
  using assms unfolding fetch_and_store_body_def
  by (auto simp add: Let_def split: sum.splits prod.splits)

lemma fetch_cycle_effect:
  fixes e sched w
  defines "w' \<equiv> state_of (fetch_and_store_body e sched w)"
  shows "stable w' = stable w
       \<and> extends (working w) (working w')
           (\<lambda>(k, d). validated_record e (cycle_candidates e) (cycle_known e w) d)
       \<and> extends (sent w) (sent w') (fetch_cycle_request e w)
       \<and> (distinct (map fst (working w)) \<longrightarrow> distinct (map fst (working w')))"
proof (cases "\<exists>text. source_reply e = Inr (200, Inr text)")
  case False
  then have "w' = sending Get_source w" by (simp add: w'_def fetch_body_skip)
  then show ?thesis by (auto simp add: fetch_cycle_request_def intro!: extends_snoc)
next
  case True
  then obtain body where tx: "source_reply e = Inr (200, Inr body)" by blast
  let ?w2 = "sending (Get_json Working) (sending Get_source w)"
  let ?s0 = "\<lparr>mem = cycle_known e w, in_flight = 0, world = ?w2\<rparr>"
  let ?cs = "cycle_candidates e"
  let ?k = "cycle_known e w"
  have "ingest_ok e ?cs ?k ?w2 ?s0" by (simp add: ingest_ok_def)
  then have "ingest_ok e ?cs ?k ?w2 (snd (gather (validate_step e) v_waiting sched (map V_start ?cs, ?s0)))"
    by (rule validate_gather_ok)
  then have ok: "stable w' = stable ?w2"
    "extends (working ?w2) (working w') (\<lambda>(k, d). validated_record e ?cs ?k d)"
    "extends (sent ?w2) (sent w') (fetch_request e ?cs ?k)"
    "distinct (map fst (working ?w2)) \<longrightarrow> distinct (map fst (working w'))"
    unfolding w'_def fetch_body_gather[OF tx] by (simp_all add: ingest_ok_def)
  have a: "extends (sent w) (sent ?w2) (fetch_cycle_request e w)"
    by (auto simp add: fetch_cycle_request_def intro!: extends_append)
  have b: "extends (sent ?w2) (sent w') (fetch_cycle_request e w)"
    using ok(3) by (rule extends_mono) (simp add: fetch_cycle_request_def)
  show ?thesis using ok(1,2,4) extends_trans[OF a b] by simp
qed

section \<open>Counting the stable records of an address\<close>

lemma numeric_age:
  "numeric_created_at v \<Longrightarrow> \<exists>age. age_of t v = Inr age"
  by (auto simp add: numeric_created_at_def age_of_def dict_get_default_def
           split: option.splits pyval.splits)

lemma count_address_append [simp]:
  "count_address a (xs @ ys) = count_address a xs + count_address a ys"
  by (simp add: count_address_def)

lemma count_address_single [simp]:
  "count_address a [(k, d)] = (if dict_get d ''address'' = a then 1 else 0)"
  by (simp add: count_address_def)

lemma count_address_pos:
  "0 < count_address a xs \<longleftrightarrow> (\<exists>(k, d) \<in> set xs. dict_get d ''address'' = a)"
  by (auto simp add: count_address_def length_greater_0_conv[symmetric] filter_empty_conv
           simp del: length_greater_0_conv)

lemma existing_of_ok:
  "existing_of (Inr (Response 200 (Inr xs)))
   = {a. truthy a \<and> 0 < count_address a xs}"
  by (auto simp add: existing_of_def count_address_pos)

lemma stable_data_address [simp]:
  "dict_get (stable_data a t k age) ''address'' = a"
  by (simp add: stable_data_def dict_get_def)

lemma ripe_addresses_Cons:
  "ripe_addresses thr t ((k, v) # data)
   = (case age_of t v of
        Inl x \<Rightarrow> ripe_addresses thr t data
      | Inr age \<Rightarrow> if thr \<le> age then insert (dict_get v ''address'') (ripe_addresses thr t data)
                   else ripe_addresses thr t data)"
  by (simp add: ripe_addresses_def split: sum.splits)

lemma ripe_addresses_Nil [simp]: "ripe_addresses thr t [] = {}"
  by (simp add: ripe_addresses_def)

lemma promote_all_count:
  assumes posts: "\<forall>d. post_reply e Stable d = Inr 200"
    and wt: "\<forall>(k, v) \<in> set data. numeric_created_at v"
  shows "\<exists>w'. promote_all thr e t data (se, w) = Normal (se \<union> ripe_addresses thr t data, w')
          \<and> working w' = working w
          \<and> count_address a (stable w')
              = count_address a (stable w) + (if a \<notin> se \<and> a \<in> ripe_addresses thr t data then 1 else 0)"
  using wt
proof (induction data arbitrary: se w)
  case Nil
  show ?case by simp
next
  case (Cons entry entries)
  obtain key val where entry: "entry = (key, val)" by (cases entry)
  from Cons.prems entry have nv: "numeric_created_at val"
    and rest: "\<forall>(k, v) \<in> set entries. numeric_created_at v" by auto
  from numeric_age[OF nv] obtain age where age: "age_of t val = Inr age" by blast
  let ?p = "dict_get val ''address''"
  show ?case
  proof (cases "thr \<le> age \<and> ?p \<notin> se")
    case True
    let ?d = "stable_data ?p t key age"
    let ?w1 = "store_post e Stable ?d (sending (Post Stable ?d) w)"
    have step: "promote_entry thr e t entry (se, w) = Normal (insert ?p se, ?w1)"
      using True age entry posts
      by (simp add: promote_entry_def age_of_def http_defs Let_def)
    from Cons.IH[OF rest, of "insert ?p se" ?w1] obtain w' where
      ih: "promote_all thr e t entries (insert ?p se, ?w1)
              = Normal (insert ?p se \<union> ripe_addresses thr t entries, w')"
          "working w' = working ?w1"
          "count_address a (stable w')
              = count_address a (stable ?w1)
                + (if a \<notin> insert ?p se \<and> a \<in> ripe_addresses thr t entries then 1 else 0)"
      by blast
    have ripe: "ripe_addresses thr t (entry # entries) = insert ?p (ripe_addresses thr t entries)"
      using True age entry by (simp add: ripe_addresses_Cons)
    have c1: "count_address a (stable ?w1) = count_address a (stable w) + (if ?p = a then 1 else 0)"
      using posts by simp
    have "promote_all thr e t (entry # entries) (se, w)
            = Normal (se \<union> ripe_addresses thr t (entry # entries), w')"
      using step ih(1) ripe by simp
    moreover have "working w' = working w" using ih(2) by simp
    moreover have "count_address a (stable w')
              = count_address a (stable w)
                + (if a \<notin> se \<and> a \<in> ripe_addresses thr t (entry # entries) then 1 else 0)"
      using ih(3) c1 ripe True by auto
    ultimately show ?thesis by blast
  next
    case False
    have step: "promote_entry thr e t entry (se, w) = Normal (se, w)"
      using False age entry by (auto simp add: promote_entry_def age_of_def Let_def)
    from Cons.IH[OF rest, of se w] obtain w' where
      ih: "promote_all thr e t entries (se, w) = Normal (se \<union> ripe_addresses thr t entries, w')"
          "working w' = working w"
          "count_address a (stable w')
              = count_address a (stable w)
                + (if a \<notin> se \<and> a \<in> ripe_addresses thr t entries then 1 else 0)"
      by blast
    have ripe: "ripe_addresses thr t (entry # entries)
                = (if thr \<le> age then insert ?p (ripe_addresses thr t entries)
                   else ripe_addresses thr t entries)"
      using age entry by (simp add: ripe_addresses_Cons)
    have same: "se \<union> ripe_addresses thr t (entry # entries) = se \<union> ripe_addresses thr t entries"
      using False ripe by auto
    have mem: "a \<notin> se \<Longrightarrow> (a \<in> ripe_addresses thr t (entry # entries)) = (a \<in> ripe_addresses thr t entries)"
      using False ripe by auto
    have "promote_all thr e t (entry # entries) (se, w)
            = Normal (se \<union> ripe_addresses thr t (entry # entries), w')"
      using step ih(1) same by simp
    moreover have "count_address a (stable w')
              = count_address a (stable w)
                + (if a \<notin> se \<and> a \<in> ripe_addresses thr t (entry # entries) then 1 else 0)"
      using ih(3) mem by auto
    ultimately show ?thesis using ih(2) by blast
  qed
qed

lemma stability_cycle_count:
  assumes up: "store_up e" and ne: "working w \<noteq> []"
    and wt: "\<forall>(k, v) \<in> set (working w). numeric_created_at v"
  shows "\<exists>w'. stability_cycle thr e w = Normal w'
          \<and> working w' = working w
          \<and> count_address a (stable w')
              = count_address a (stable w)
                + (if \<not> (truthy a \<and> 0 < count_address a (stable w))
                      \<and> a \<in> ripe_addresses thr (clock e (ticks w)) (working w) then 1 else 0)"
proof -
  let ?w1 = "sending (Get_json Working) w"
  let ?t = "clock e (ticks w)"
  let ?w2 = "?w1\<lparr>ticks := Suc (ticks w)\<rparr>"
  let ?w3 = "sending (Get_json Stable) ?w2"
  let ?se = "existing_of (store_read e Stable ?w2)"
  let ?r = "promote_all thr e ?t (working w) (?se, ?w3)"
  from up have rw: "read_reply e Working = Inr (200, None)" and rs: "read_reply e Stable = Inr (200, None)"
    and posts: "\<forall>d. post_reply e Stable d = Inr 200"
    by (simp_all add: store_up_def)
  have body: "stability_body thr e w =
      (case ?r of Normal (known, w4) \<Rightarrow> Normal w4 | Raised x (known, w4) \<Rightarrow> Raised x w4)"
    using rw ne unfolding stability_body_def http_defs
    by (simp add: store_read_ok)
  have se: "?se = {a. truthy a \<and> 0 < count_address a (stable w)}"
    by (simp add: store_read_ok[OF rs] existing_of_ok)
  from promote_all_count[OF posts wt, of thr ?t ?se ?w3 a] obtain w' where
    pa: "?r = Normal (?se \<union> ripe_addresses thr ?t (working w), w')"
        "working w' = working ?w3"
        "count_address a (stable w')
              = count_address a (stable ?w3)
                + (if a \<notin> ?se \<and> a \<in> ripe_addresses thr ?t (working w) then 1 else 0)"
    by blast
  have "stability_cycle thr e w = Normal w'"
    by (simp add: stability_cycle_def body pa(1))
  moreover have "working w' = working w" using pa(2) by simp
  moreover have "count_address a (stable w')
              = count_address a (stable w)
                + (if \<not> (truthy a \<and> 0 < count_address a (stable w))
                      \<and> a \<in> ripe_addresses thr ?t (working w) then 1 else 0)"
    using pa(3) unfolding se by simp
  ultimately show ?thesis by blast
qed

lemma ripe_addressesI:
  "(k, v) \<in> set data \<Longrightarrow> age_of t v = Inr age \<Longrightarrow> thr \<le> age
   \<Longrightarrow> dict_get v ''address'' \<in> ripe_addresses thr t data"
  by (force simp add: ripe_addresses_def)

section \<open>Fields of the records, added elements\<close>

lemma stable_data_fields [simp]:
  "dict_get (stable_data a t k age) ''original_key'' = PStr k"
  "dict_get (stable_data a t k age) ''promoted_at'' = PNum t"
  "dict_get (stable_data a t k age) ''age_seconds'' = PNum age"
  by (simp_all add: stable_data_def dict_get_def)

lemma proxy_data_fields [simp]:
  "dict_get (proxy_data a t1 t2) ''address'' = PStr a"
  "dict_get (proxy_data a t1 t2) ''last_checked'' = PNum t1"
  "dict_get (proxy_data a t1 t2) ''created_at'' = PNum t2"
  "dict_get (proxy_data a t1 t2) ''status'' = PStr ''active''"
  by (simp_all add: proxy_data_def dict_get_def)

lemma added_self [simp]: "added xs xs = []"
  by (simp add: added_def)

lemma added_append_same [simp]: "added xs (xs @ ys) = ys"
  by (simp add: added_def)

lemma requests_of_extends:
  "extends (sent w) (sent w') P \<Longrightarrow> \<forall>r \<in> set (requests_of w w'). P r"
  unfolding requests_of_def by (auto dest: extends_added)

lemma distinct_keys_unique:
  "distinct (map fst xs) \<Longrightarrow> (k, v) \<in> set xs \<Longrightarrow> (k, v') \<in> set xs \<Longrightarrow> v = v'"
  by (meson eq_key_imp_eq_value)

lemma promoted_fromE:
  assumes "promoted_from thr t data d"
  obtains k v a where "(k, v) \<in> set data" "age_of t v = Inr a" "thr \<le> a"
    "d = stable_data (dict_get v ''address'') t k a"
proof -
  from assms obtain k v where kv: "(k, v) \<in> set data"
    and c: "case age_of t v of Inl x \<Rightarrow> False
            | Inr age \<Rightarrow> thr \<le> age \<and> d = stable_data (dict_get v ''address'') t k age"
    unfolding promoted_from_def by blast
  show thesis
  proof (cases "age_of t v")
    case (Inl x)
    with c show ?thesis by simp
  next
    case (Inr a)
    with c kv that show ?thesis by simp
  qed
qed

section \<open>The stability monitor: what is promoted\<close>

text \<open>
  Claim C5. A working-set record without a \<^verbatim>\<open>created_at\<close> field has the computed age 0
  (the default is the scan time itself), and for a positive threshold the loop body
  leaves it alone: nothing is sent and nothing changes. In a whole cycle over a working
  set that holds the record under its key, no record inserted into the stable set and no
  POST to it carries that key as \<^verbatim>\<open>original_key\<close>.
\<close>

theorem missing_created_at_never_promoted:
  assumes "map_of val ''created_at'' = None" and "0 < thr"
  shows "age_of current_time val = Inr 0
       \<and> promote_entry thr e current_time (key, val) p = Normal p
       \<and> ((key, val) \<in> set (working w) \<and> distinct (map fst (working w)) \<longrightarrow>
            (\<forall>(k, d) \<in> set (added (stable w) (stable (state_of (stability_cycle thr e w)))).
                dict_get d ''original_key'' \<noteq> PStr key)
          \<and> (\<forall>d. Post Stable d \<in> set (requests_of w (state_of (stability_cycle thr e w)))
                \<longrightarrow> dict_get d ''original_key'' \<noteq> PStr key))"
proof -
  have age: "age_of t val = Inr 0" for t
    using assms(1) by (simp add: age_of_def dict_get_default_def)
  have entry: "promote_entry thr e current_time (key, val) p = Normal p"
    using assms by (cases p) (simp add: promote_entry_def dict_get_default_def)
  have cyc: "dict_get d ''original_key'' \<noteq> PStr key"
    if m: "(key, val) \<in> set (working w)" and d: "distinct (map fst (working w))"
      and pf: "promoted_from thr t (working w) d" for d t
  proof
    assume eq: "dict_get d ''original_key'' = PStr key"
    from pf obtain k v a where kv: "(k, v) \<in> set (working w)" and a: "age_of t v = Inr a"
      and thr: "thr \<le> a" and dd: "d = stable_data (dict_get v ''address'') t k a"
      by (rule promoted_fromE)
    from eq dd have "k = key" by simp
    with kv m d have "v = val" by (auto dest: distinct_keys_unique)
    with a age[of t] thr assms(2) show False by simp
  qed
  let ?w' = "state_of (stability_cycle thr e w)"
  let ?t = "clock e (ticks w)"
  have w': "?w' = state_of (stability_body thr e w)" by (simp add: stability_cycle_Normal)
  from stability_body_effect[of thr e w]
  have st: "extends (stable w) (stable ?w') (\<lambda>(k, d). promoted_from thr ?t (working w) d)"
    and rq: "extends (sent w) (sent ?w') (stability_request thr ?t (working w))"
    unfolding w' by simp_all
  have a: "\<forall>(k, d) \<in> set (added (stable w) (stable ?w')). dict_get d ''original_key'' \<noteq> PStr key"
    if "(key, val) \<in> set (working w)" "distinct (map fst (working w))"
    using extends_added[OF st] cyc[OF that] by auto
  have b: "\<forall>d. Post Stable d \<in> set (requests_of w ?w') \<longrightarrow> dict_get d ''original_key'' \<noteq> PStr key"
    if "(key, val) \<in> set (working w)" "distinct (map fst (working w))"
    using requests_of_extends[OF rq] cyc[OF that] by (auto simp add: stability_request_def)
  show ?thesis using age entry a b by blast
qed

theorem missing_created_at_never_promoted_witness:
  "age_of 1000 undated_record = Inr 0
   \<and> promote_entry STABILITY_THRESHOLD sample_env 1000 (''k2'', undated_record) ({}, sample_world)
       = Normal ({}, sample_world)
   \<and> list_all (\<lambda>(k, d). dict_get d ''original_key'' \<noteq> PStr ''k2'')
         (added (stable sample_world)
            (stable (state_of (stability_cycle STABILITY_THRESHOLD sample_env sample_world))))"
proof -
  have h1: "map_of undated_record ''created_at'' = None" by (simp add: undated_record_def)
  have h2: "0 < STABILITY_THRESHOLD" by (simp add: STABILITY_THRESHOLD_def)
  have h3: "(''k2'', undated_record) \<in> set (working sample_world)
            \<and> distinct (map fst (working sample_world))"
    by (simp add: sample_world_def)
  from missing_created_at_never_promoted[OF h1 h2, of 1000 sample_env "''k2''" "({}, sample_world)" sample_world] h3
  show ?thesis unfolding list_all_iff by blast
qed

text \<open>
  The loop body called for one entry that is old enough and whose address is not known:
  it sends one POST, and the stable set gains the record when the store answers 200.
\<close>

lemma promote_entry_posts_once:
  assumes "age_of current_time val = Inr age"
    and "thr \<le> age"
    and "dict_get val ''address'' \<notin> stable_existing"
  shows "requests_of w (snd (state_of (promote_entry thr e current_time (key, val) (stable_existing, w))))
           = [Post Stable (stable_data (dict_get val ''address'') current_time key age)]
       \<and> added (stable w) (stable (snd (state_of (promote_entry thr e current_time (key, val) (stable_existing, w)))))
           = (if post_reply e Stable (stable_data (dict_get val ''address'') current_time key age) = Inr 200
              then [(fresh_key (stable w), stable_data (dict_get val ''address'') current_time key age)]
              else [])"
proof -
  let ?d = "stable_data (dict_get val ''address'') current_time key age"
  have eq: "snd (state_of (promote_entry thr e current_time (key, val) (stable_existing, w)))
            = store_post e Stable ?d (sending (Post Stable ?d) w)"
    using assms by (auto simp add: promote_entry_def age_of_def http_defs Let_def split: sum.splits)
  show ?thesis unfolding eq by (simp add: requests_of_def)
qed

lemma promote_all_append:
  "promote_all thr e t (xs @ ys) p =
     (case promote_all thr e t xs p of
        Normal p' \<Rightarrow> promote_all thr e t ys p'
      | Raised x p' \<Rightarrow> Raised x p')"
  by (induction xs arbitrary: p) (simp_all split: outcome.splits)

lemma extends_list_all:
  "extends xs ys P \<Longrightarrow> \<exists>new. ys = xs @ new \<and> list_all P new"
  by (auto simp add: extends_def list_all_iff)

text \<open>
  The loop over a working set in which the entry \<open>(key, val)\<close> is old enough, is the
  first old entry with its address and has an address the snapshot does not hold, when
  the store accepts every POST: the records inserted are those of earlier entries, then
  the record of this entry, then those of later entries, and so for the POSTs.
\<close>

lemma promote_all_inserts:
  fixes thr e t before key val rest se w age
  defines "d \<equiv> stable_data (dict_get val ''address'') t key age"
    and "w' \<equiv> snd (state_of (promote_all thr e t (before @ (key, val) # rest) (se, w)))"
  assumes posts: "\<forall>d. post_reply e Stable d = Inr 200"
    and wt: "\<forall>(k, v) \<in> set before. numeric_created_at v"
    and age: "age_of t val = Inr age" and ripe: "thr \<le> age"
    and new: "dict_get val ''address'' \<notin> se"
    and first: "dict_get val ''address'' \<notin> ripe_addresses thr t before"
  shows "\<exists>n1 n3. stable w' = stable w @ n1 @ (fresh_key (stable w @ n1), d) # n3
           \<and> list_all (\<lambda>(k, d'). promoted_from thr t before d') n1
           \<and> list_all (\<lambda>(k, d'). promoted_from thr t rest d') n3"
    and "\<exists>r1 r3. sent w' = sent w @ r1 @ Post Stable d # r3
           \<and> list_all (\<lambda>r. \<exists>d'. r = Post Stable d' \<and> promoted_from thr t before d') r1
           \<and> list_all (\<lambda>r. \<exists>d'. r = Post Stable d' \<and> promoted_from thr t rest d') r3"
proof -
  let ?a = "dict_get val ''address''"
  let ?se1 = "se \<union> ripe_addresses thr t before"
  from promote_all_count[OF posts wt, of thr t se w ?a] obtain w1 where
    b: "promote_all thr e t before (se, w) = Normal (?se1, w1)" by blast
  have s1: "extends (stable w) (stable w1) (\<lambda>(k, d'). promoted_from thr t before d')"
    and q1: "extends (sent w) (sent w1) (\<lambda>r. \<exists>d'. r = Post Stable d' \<and> promoted_from thr t before d')"
    using promote_all_effect[of thr e t before se w] b by simp_all
  let ?w2 = "store_post e Stable d (sending (Post Stable d) w1)"
  have step: "promote_entry thr e t (key, val) (?se1, w1) = Normal (insert ?a ?se1, ?w2)"
    using age ripe new first posts
    by (simp add: promote_entry_def age_of_def http_defs Let_def d_def)
  have w': "w' = snd (state_of (promote_all thr e t rest (insert ?a ?se1, ?w2)))"
    by (simp add: w'_def promote_all_append b step)
  have s3: "extends (stable ?w2) (stable w') (\<lambda>(k, d'). promoted_from thr t rest d')"
    and q3: "extends (sent ?w2) (sent w') (\<lambda>r. \<exists>d'. r = Post Stable d' \<and> promoted_from thr t rest d')"
    using promote_all_effect[of thr e t rest "insert ?a ?se1" ?w2] unfolding w' by simp_all
  from extends_list_all[OF s1] obtain n1 where
    n1: "stable w1 = stable w @ n1" "list_all (\<lambda>(k, d'). promoted_from thr t before d') n1"
    by blast
  from extends_list_all[OF s3] obtain n3 where
    n3: "stable w' = stable ?w2 @ n3" "list_all (\<lambda>(k, d'). promoted_from thr t rest d') n3"
    by blast
  have "stable ?w2 = stable w1 @ [(fresh_key (stable w1), d)]" using posts by simp
  then have "stable w' = stable w @ n1 @ (fresh_key (stable w @ n1), d) # n3"
    using n1(1) n3(1) by simp
  then show "\<exists>n1 n3. stable w' = stable w @ n1 @ (fresh_key (stable w @ n1), d) # n3
           \<and> list_all (\<lambda>(k, d'). promoted_from thr t before d') n1
           \<and> list_all (\<lambda>(k, d'). promoted_from thr t rest d') n3"
    using n1(2) n3(2) by blast
  from extends_list_all[OF q1] obtain r1 where
    r1: "sent w1 = sent w @ r1"
        "list_all (\<lambda>r. \<exists>d'. r = Post Stable d' \<and> promoted_from thr t before d') r1"
    by blast
  from extends_list_all[OF q3] obtain r3 where
    r3: "sent w' = sent ?w2 @ r3"
        "list_all (\<lambda>r. \<exists>d'. r = Post Stable d' \<and> promoted_from thr t rest d') r3"
    by blast
  have "sent ?w2 = sent w1 @ [Post Stable d]" by simp
  then have "sent w' = sent w @ r1 @ Post Stable d # r3"
    using r1(1) r3(1) by simp
  then show "\<exists>r1 r3. sent w' = sent w @ r1 @ Post Stable d # r3
           \<and> list_all (\<lambda>r. \<exists>d'. r = Post Stable d' \<and> promoted_from thr t before d') r1
           \<and> list_all (\<lambda>r. \<exists>d'. r = Post Stable d' \<and> promoted_from thr t rest d') r3"
    using r1(2) r3(2) by blast
qed

text \<open>
  With a store that serves its reads and a working set that is not empty, a cycle is the
  two reads, with the reading of the clock between them, and then the loop over the
  working set read, started with the snapshot of the stable set.
\<close>

lemma stability_cycle_loop:
  assumes up: "store_up e" and ne: "working w \<noteq> []"
  shows "state_of (stability_cycle thr e w)
         = snd (state_of (promote_all thr e (clock e (ticks w)) (working w)
                 (existing_of (store_read e Stable w),
                  sending (Get_json Stable) ((sending (Get_json Working) w)\<lparr>ticks := Suc (ticks w)\<rparr>))))"
proof -
  let ?w1 = "sending (Get_json Working) w"
  let ?w2 = "?w1\<lparr>ticks := Suc (ticks w)\<rparr>"
  let ?w3 = "sending (Get_json Stable) ?w2"
  let ?r = "promote_all thr e (clock e (ticks w)) (working w) (existing_of (store_read e Stable ?w2), ?w3)"
  from up have rw: "read_reply e Working = Inr (200, None)" and rs: "read_reply e Stable = Inr (200, None)"
    by (simp_all add: store_up_def)
  have body: "stability_body thr e w =
      (case ?r of Normal (known, w4) \<Rightarrow> Normal w4 | Raised x (known, w4) \<Rightarrow> Raised x w4)"
    using rw ne unfolding stability_body_def http_defs
    by (simp add: store_read_ok)
  have se: "store_read e Stable ?w2 = store_read e Stable w"
    by (simp add: store_read_ok[OF rs])
  have "state_of (stability_body thr e w) = snd (state_of ?r)"
    unfolding body by (cases ?r) (auto split: prod.splits)
  then show ?thesis unfolding se by (simp add: stability_cycle_Normal)
qed

text \<open>
  Claim C6. Let the store serve both reads and accept every POST to the stable set, and
  let the working set hold the entry \<open>(key, val)\<close> with the address \<open>a\<close>, after the
  entries \<open>before\<close> (each with a \<^verbatim>\<open>created_at\<close> that is a number, or none) and ahead of
  the entries \<open>rest\<close>. Let the age the cycle computes for the entry at its scan time be at
  least the threshold, and let \<open>a\<close> be neither in the snapshot read from the stable set
  nor the address of an earlier entry that is old enough. Then the cycle inserts the
  record of the entry: the records the stable set gains are those of earlier entries,
  then this record, under a new key, then those of later entries; and the requests of
  the cycle are the two reads, then the POSTs for earlier entries, the POST of this
  record, and the POSTs for later entries. So for a working set of this one entry the
  stable set gains exactly this record and the cycle sends exactly one POST. The record
  carries the address of the entry, its working-set key as \<^verbatim>\<open>original_key\<close>, the scan
  time as \<^verbatim>\<open>promoted_at\<close> and the computed age as \<^verbatim>\<open>age_seconds\<close>. And in every cycle,
  whatever the store answers, every record the stable set gains is built in this way,
  at the one scan time of the cycle, from an entry of the working set that is old
  enough.
\<close>

theorem promoted_record_fields:
  assumes "store_up e"
    and "working w0 = before @ (key, val) # rest"
    and "\<forall>(k, v) \<in> set before. numeric_created_at v"
    and "age_of (clock e (ticks w0)) val = Inr age"
    and "thr \<le> age"
    and "dict_get val ''address'' \<notin> existing_of (store_read e Stable w0)"
    and "dict_get val ''address'' \<notin> ripe_addresses thr (clock e (ticks w0)) before"
  shows "(\<exists>n1 n3. added (stable w0) (stable (state_of (stability_cycle thr e w0)))
                    = n1 @ (fresh_key (stable w0 @ n1),
                            stable_data (dict_get val ''address'') (clock e (ticks w0)) key age) # n3
              \<and> list_all (\<lambda>(k, d). promoted_from thr (clock e (ticks w0)) before d) n1
              \<and> list_all (\<lambda>(k, d). promoted_from thr (clock e (ticks w0)) rest d) n3)
       \<and> (\<exists>r1 r3. requests_of w0 (state_of (stability_cycle thr e w0))
                    = Get_json Working # Get_json Stable # r1
                      @ Post Stable (stable_data (dict_get val ''address'') (clock e (ticks w0)) key age) # r3
              \<and> list_all (\<lambda>r. \<exists>d. r = Post Stable d \<and> promoted_from thr (clock e (ticks w0)) before d) r1
              \<and> list_all (\<lambda>r. \<exists>d. r = Post Stable d \<and> promoted_from thr (clock e (ticks w0)) rest d) r3)
       \<and> dict_get (stable_data (dict_get val ''address'') (clock e (ticks w0)) key age) ''address''
           = dict_get val ''address''
       \<and> dict_get (stable_data (dict_get val ''address'') (clock e (ticks w0)) key age) ''original_key''
           = PStr key
       \<and> dict_get (stable_data (dict_get val ''address'') (clock e (ticks w0)) key age) ''promoted_at''
           = PNum (clock e (ticks w0))
       \<and> dict_get (stable_data (dict_get val ''address'') (clock e (ticks w0)) key age) ''age_seconds''
           = PNum age
       \<and> (\<forall>(k, d) \<in> set (added (stable w1) (stable (state_of (stability_cycle thr e1 w1)))).
             promoted_from thr (clock e1 (ticks w1)) (working w1) d)"
proof -
  let ?t = "clock e (ticks w0)"
  let ?d = "stable_data (dict_get val ''address'') ?t key age"
  let ?w3 = "sending (Get_json Stable) ((sending (Get_json Working) w0)\<lparr>ticks := Suc (ticks w0)\<rparr>)"
  let ?w' = "state_of (stability_cycle thr e w0)"
  from assms(1) have posts: "\<forall>d. post_reply e Stable d = Inr 200" by (simp add: store_up_def)
  have ne: "working w0 \<noteq> []" using assms(2) by simp
  have loop: "?w' = snd (state_of (promote_all thr e ?t (before @ (key, val) # rest)
                                    (existing_of (store_read e Stable w0), ?w3)))"
    using stability_cycle_loop[OF assms(1) ne, of thr] unfolding assms(2) .
  from promote_all_inserts(1)[OF posts assms(3,4,5,6,7), of key rest ?w3] obtain n1 n3 where
    n: "stable ?w' = stable ?w3 @ n1 @ (fresh_key (stable ?w3 @ n1), ?d) # n3"
       "list_all (\<lambda>(k, d). promoted_from thr ?t before d) n1"
       "list_all (\<lambda>(k, d). promoted_from thr ?t rest d) n3"
    unfolding loop[symmetric] by blast
  from promote_all_inserts(2)[OF posts assms(3,4,5,6,7), of key rest ?w3] obtain r1 r3 where
    r: "sent ?w' = sent ?w3 @ r1 @ Post Stable ?d # r3"
       "list_all (\<lambda>r. \<exists>d. r = Post Stable d \<and> promoted_from thr ?t before d) r1"
       "list_all (\<lambda>r. \<exists>d. r = Post Stable d \<and> promoted_from thr ?t rest d) r3"
    unfolding loop[symmetric] by blast
  have "added (stable w0) (stable ?w') = n1 @ (fresh_key (stable w0 @ n1), ?d) # n3"
    using n(1) by simp
  then have 1: "\<exists>n1 n3. added (stable w0) (stable ?w') = n1 @ (fresh_key (stable w0 @ n1), ?d) # n3
              \<and> list_all (\<lambda>(k, d). promoted_from thr ?t before d) n1
              \<and> list_all (\<lambda>(k, d). promoted_from thr ?t rest d) n3"
    using n(2,3) by blast
  have "requests_of w0 ?w' = Get_json Working # Get_json Stable # r1 @ Post Stable ?d # r3"
    using r(1) by (simp add: requests_of_def)
  then have 2: "\<exists>r1 r3. requests_of w0 ?w' = Get_json Working # Get_json Stable # r1 @ Post Stable ?d # r3
              \<and> list_all (\<lambda>r. \<exists>d. r = Post Stable d \<and> promoted_from thr ?t before d) r1
              \<and> list_all (\<lambda>r. \<exists>d. r = Post Stable d \<and> promoted_from thr ?t rest d) r3"
    using r(2,3) by blast
  let ?v' = "state_of (stability_cycle thr e1 w1)"
  have v': "?v' = state_of (stability_body thr e1 w1)" by (simp add: stability_cycle_Normal)
  from stability_body_effect[of thr e1 w1]
  have "extends (stable w1) (stable ?v') (\<lambda>(k, d). promoted_from thr (clock e1 (ticks w1)) (working w1) d)"
    unfolding v' by simp
  from extends_added[OF this]
  have 3: "\<forall>(k, d) \<in> set (added (stable w1) (stable ?v')). promoted_from thr (clock e1 (ticks w1)) (working w1) d"
    by simp
  show ?thesis using 1 2 3 by simp
qed

theorem promoted_record_fields_witness:
  "added (stable lone_world) (stable (state_of (stability_cycle STABILITY_THRESHOLD sample_env lone_world)))
     = [(''-'', stable_data (PStr ''1.2.3.4:8080'') 1000 ''k1'' 700)]
   \<and> requests_of lone_world (state_of (stability_cycle STABILITY_THRESHOLD sample_env lone_world))
     = [Get_json Working, Get_json Stable,
        Post Stable (stable_data (PStr ''1.2.3.4:8080'') 1000 ''k1'' 700)]
   \<and> dict_get (stable_data (PStr ''1.2.3.4:8080'') 1000 ''k1'' 700) ''original_key'' = PStr ''k1''
   \<and> dict_get (stable_data (PStr ''1.2.3.4:8080'') 1000 ''k1'' 700) ''age_seconds'' = PNum 700"
proof -
  have up: "store_up sample_env" by (simp add: store_up_def sample_env_def)
  have wk: "working lone_world = [] @ (''k1'', old_record) # []" by (simp add: lone_world_def)
  have wt: "\<forall>(k, v) \<in> set []. numeric_created_at v" by simp
  have t: "clock sample_env (ticks lone_world) = 1000" by (simp add: sample_env_def lone_world_def)
  have h1: "age_of (clock sample_env (ticks lone_world)) old_record = Inr 700"
    unfolding t by (simp add: age_of_def old_record_def dict_get_default_def)
  have h2: "STABILITY_THRESHOLD \<le> 700" by (simp add: STABILITY_THRESHOLD_def)
  have a: "dict_get old_record ''address'' = PStr ''1.2.3.4:8080''"
    by (simp add: old_record_def dict_get_def)
  have h3: "dict_get old_record ''address'' \<notin> existing_of (store_read sample_env Stable lone_world)"
    by (simp add: store_read_def sample_env_def existing_of_def lone_world_def contents_def)
  have h4: "dict_get old_record ''address''
              \<notin> ripe_addresses STABILITY_THRESHOLD (clock sample_env (ticks lone_world)) []"
    by simp
  have f: "fresh_key (stable lone_world) = ''-''" by (simp add: lone_world_def fresh_key_def)
  have none: "n = []" if "list_all (\<lambda>(k, d). promoted_from thr t' [] d) n"
    for n :: "(string \<times> pydict) list" and thr t'
    using that by (cases n) (auto simp add: promoted_from_def)
  have noner: "r = []" if "list_all (\<lambda>r. \<exists>d. r = Post Stable d \<and> promoted_from thr t' [] d) r"
    for r thr t'
    using that by (cases r) (auto simp add: promoted_from_def)
  let ?w' = "state_of (stability_cycle STABILITY_THRESHOLD sample_env lone_world)"
  let ?d = "stable_data (PStr ''1.2.3.4:8080'') 1000 ''k1'' 700"
  from promoted_record_fields[OF up wk wt h1 h2 h3 h4, of lone_world sample_env]
  obtain n1 n3 r1 r3 where
    n: "added (stable lone_world) (stable ?w') = n1 @ (fresh_key (stable lone_world @ n1), ?d) # n3"
       "list_all (\<lambda>(k, d). promoted_from STABILITY_THRESHOLD 1000 [] d) n1"
       "list_all (\<lambda>(k, d). promoted_from STABILITY_THRESHOLD 1000 [] d) n3"
    and r: "requests_of lone_world ?w' = Get_json Working # Get_json Stable # r1 @ Post Stable ?d # r3"
       "list_all (\<lambda>r. \<exists>d. r = Post Stable d \<and> promoted_from STABILITY_THRESHOLD 1000 [] d) r1"
       "list_all (\<lambda>r. \<exists>d. r = Post Stable d \<and> promoted_from STABILITY_THRESHOLD 1000 [] d) r3"
    unfolding t a by blast
  have e: "n1 = []" "n3 = []" "r1 = []" "r3 = []"
    using none[OF n(2)] none[OF n(3)] noner[OF r(2)] noner[OF r(3)] by simp_all
  show ?thesis using n(1) r(1) unfolding e by (simp add: f)
qed

text \<open>
  The age is the float the subtraction gives. A record created at the float
  \<^verbatim>\<open>0.30000000000000004\<close> and scanned at the float \<^verbatim>\<open>600.3\<close> is less than 600 seconds
  old, the age computed is 600, and the cycle promotes it with that age.
\<close>

lemma rounded_age_promoted:
  "added (stable early_world) (stable (state_of (stability_monitor_cycle early_env early_world)))
     = [(''-'', stable_data (PStr ''1.2.3.4:8080'') (2640147320615731 / 2 ^ 42) ''k6'' 600)]"
proof -
  have up: "store_up early_env" by (simp add: store_up_def early_env_def sample_env_def)
  have ne: "working early_world \<noteq> []" by (simp add: early_world_def)
  have s: "py_sub (2640147320615731 / 2 ^ 42) (PNum (1351079888211149 / 2 ^ 52)) = Inr 600"
    using float_subtraction_rounds by blast
  have f: "fresh_key [] = ''-''" by (simp add: fresh_key_def)
  have r: "existing_of (store_read early_env Stable early_world) = {}"
    by (simp add: store_read_def early_env_def sample_env_def existing_of_def early_world_def contents_def)
  have p: "post_reply early_env Stable d = Inr 200" for d
    by (simp add: early_env_def sample_env_def)
  have c: "clock early_env n = 2640147320615731 / 2 ^ 42" for n by (simp add: early_env_def)
  have w: "working early_world = [(''k6'', early_record)]" "stable early_world = []"
    by (simp_all add: early_world_def)
  have g: "dict_get_default early_record ''created_at'' d = PNum (1351079888211149 / 2 ^ 52)" for d
    by (simp add: early_record_def dict_get_default_def)
  have a: "dict_get early_record ''address'' = PStr ''1.2.3.4:8080''"
    by (simp add: early_record_def dict_get_def)
  show ?thesis
    unfolding stability_monitor_cycle_def stability_cycle_loop[OF up ne] r c w
    using s
    by (simp add: promote_entry_def g a p f w STABILITY_THRESHOLD_def http_defs Let_def added_def del: py_sub.simps)
qed

text \<open>
  A \<^verbatim>\<open>created_at\<close> that is an int out of the range of the floats ends the scan: the
  entries after it are not looked at.
\<close>

lemma huge_created_at_ends_scan:
  "promote_all STABILITY_THRESHOLD sample_env 1000
     [(''k7'', [(''address'', PStr ''9.9.9.9:80''), (''created_at'', PNum (2 ^ 1024))]),
      (''k1'', old_record)] ({}, empty_world)
   = Raised OverflowError ({}, empty_world)"
proof -
  have "(2::real) ^ 1024 \<le> \<bar>nearest_double (2 ^ 1024)\<bar>"
    unfolding nearest_double_power2 by simp
  then show ?thesis
    by (simp add: promote_entry_def dict_get_default_def)
qed

section \<open>The cleanup loop: what is deleted\<close>

lemma check_and_delete_requests:
  "requests_of w (check_and_delete e key a w)
   = (if is_proxy_alive e a then [Get_via a] else [Get_via a, Delete Working key])"
  by (simp add: check_and_delete_def http_defs requests_of_def Let_def)

lemma check_and_delete_working:
  "working (check_and_delete e key a w)
   = (if \<not> is_proxy_alive e a \<and> delete_reply e Working key = Inr 200
      then filter (\<lambda>(k', v). k' \<noteq> key) (working w) else working w)"
  by (simp add: check_and_delete_def http_defs Let_def)

text \<open>The three steps of a task that finds a permit are \<^verbatim>\<open>check_and_delete\<close>.\<close>

lemma check_steps_alone:
  assumes "in_flight s < CONCURRENCY_LIMIT"
  shows "thrice (check_step e) (C_start key a, s)
         = (C_done, s\<lparr>world := check_and_delete e key a (world s)\<rparr>)"
  using assms by (simp add: thrice_def check_and_delete_def http_defs Let_def release_def)

lemma cleanup_pairs_key_unique:
  assumes "distinct (map fst data)" and "(key, val) \<in> set data" and "(key, a) \<in> set (cleanup_pairs data)"
  shows "a = dict_get val ''address''"
proof -
  from cleanup_pairs_mem[OF assms(3)] obtain v where "(key, v) \<in> set data" "a = dict_get v ''address''"
    by blast
  with assms(1,2) show ?thesis by (auto dest: distinct_keys_unique)
qed

lemma cleanup_pairs_intro:
  "(key, val) \<in> set data \<Longrightarrow> truthy (dict_get val ''address'')
   \<Longrightarrow> (key, dict_get val ''address'') \<in> set (cleanup_pairs data)"
  by (force simp add: cleanup_pairs_def)

text \<open>
  Claim C3. In a cleanup cycle that reads a working set with distinct keys, for every
  entry with an address: the DELETE of its key is sent if and only if its probe fails;
  when the probe succeeds the entry is still in the working set, unchanged; when the
  probe fails and the store answers the DELETE with 200 the key is gone. No cycle of the
  cleanup loop sends a POST, so no record is ever rewritten. For the task alone:
  \<^verbatim>\<open>check_and_delete\<close> sends the probe, and the DELETE of the key exactly when the probe
  fails, and leaves the working set as it is when the probe succeeds.
\<close>

theorem delete_iff_probe_fails:
  assumes "distinct (map fst (working w))"
    and "(key, val) \<in> set (working w)"
    and "truthy (dict_get val ''address'')"
    and "read_reply e Working = Inr (200, None)"
  shows "(Delete Working key \<in> set (requests_of w (state_of (cleanup_cycle e sched w)))
            \<longleftrightarrow> \<not> is_proxy_alive e (dict_get val ''address''))
       \<and> (is_proxy_alive e (dict_get val ''address'')
            \<longrightarrow> (key, val) \<in> set (working (state_of (cleanup_cycle e sched w))))
       \<and> (\<not> is_proxy_alive e (dict_get val ''address'') \<and> delete_reply e Working key = Inr 200
            \<longrightarrow> key \<notin> fst ` set (working (state_of (cleanup_cycle e sched w))))
       \<and> (\<forall>c d. Post c d \<notin> set (requests_of w (state_of (cleanup_cycle e sched w))))
       \<and> requests_of w (check_and_delete e key (dict_get val ''address'') w)
           = (if is_proxy_alive e (dict_get val ''address'') then [Get_via (dict_get val ''address'')]
              else [Get_via (dict_get val ''address''), Delete Working key])
       \<and> (is_proxy_alive e (dict_get val ''address'')
            \<longrightarrow> working (check_and_delete e key (dict_get val ''address'') w) = working w)"
proof -
  let ?a = "dict_get val ''address''"
  let ?pairs = "cleanup_pairs (working w)"
  let ?w1 = "sending (Get_json Working) w"
  let ?s0 = "\<lparr>mem = (), in_flight = 0, world = ?w1\<rparr>"
  let ?w' = "state_of (cleanup_cycle e sched w)"
  have ne: "working w \<noteq> []" using assms(2) by auto
  have w': "?w' = world (snd (gather (check_step e) c_waiting sched (map (\<lambda>(k, a). C_start k a) ?pairs, ?s0)))"
    by (simp add: cleanup_cycle_Normal cleanup_body_scan[OF assms(4) ne])
  have dp: "distinct (map fst ?pairs)" using assms(1) by (rule distinct_cleanup_pairs)
  have ok0: "cleanup_ok e ?pairs w (world ?s0)" by (simp add: cleanup_ok_start)
  have none: "\<forall>k. Delete Working k \<notin> set (requests_of w (world ?s0))"
    by (simp add: requests_of_def)
  have mem: "(key, ?a) \<in> set ?pairs" using assms(2,3) by (rule cleanup_pairs_intro)
  from check_gather_ok[OF dp ok0 _ none, of sched] mem
  have 1: "Delete Working key \<in> set (requests_of w ?w') \<longleftrightarrow> \<not> is_proxy_alive e ?a"
    and 3: "\<not> is_proxy_alive e ?a \<and> delete_reply e Working key = Inr 200 \<longrightarrow> key \<notin> fst ` set (working ?w')"
    unfolding w' by auto
  have ok: "cleanup_ok e ?pairs w ?w'"
    using cleanup_cycle_effect[of e w sched] by (simp add: cleanup_cycle_Normal)
  have 2: "(key, val) \<in> set (working ?w')" if alive: "is_proxy_alive e ?a"
  proof -
    have "key \<notin> dead_keys e ?pairs"
      using cleanup_pairs_key_unique[OF assms(1,2)] alive by (auto simp add: dead_keys_def)
    with ok assms(2) show ?thesis by (auto simp add: cleanup_ok_def)
  qed
  have "extends (sent w) (sent ?w') (cleanup_request e ?pairs)" using ok by (simp add: cleanup_ok_def)
  from requests_of_extends[OF this]
  have 4: "\<forall>c d. Post c d \<notin> set (requests_of w ?w')"
    by (auto simp add: cleanup_request_def)
  show ?thesis
    using 1 2 3 4 by (simp add: check_and_delete_requests check_and_delete_working)
qed

theorem delete_iff_probe_fails_witness:
  "(Delete Working ''k2'' \<in> set (requests_of sample_world (state_of (cleanup_cycle sample_env [0, 1] sample_world))))
   \<and> (''k1'', old_record) \<in> set (working (state_of (cleanup_cycle sample_env [0, 1] sample_world)))
   \<and> ''k2'' \<notin> fst ` set (working (state_of (cleanup_cycle sample_env [0, 1] sample_world)))
   \<and> Delete Working ''k1'' \<notin> set (requests_of sample_world (state_of (cleanup_cycle sample_env [0, 1] sample_world)))"
proof -
  have d: "distinct (map fst (working sample_world))" by (simp add: sample_world_def)
  have r: "read_reply sample_env Working = Inr (200, None)" by (simp add: sample_env_def)
  have m1: "(''k1'', old_record) \<in> set (working sample_world)" by (simp add: sample_world_def)
  have m2: "(''k2'', undated_record) \<in> set (working sample_world)" by (simp add: sample_world_def)
  have a1: "dict_get old_record ''address'' = PStr ''1.2.3.4:8080''"
    by (simp add: old_record_def dict_get_def)
  have a2: "dict_get undated_record ''address'' = PStr ''5.6.7.8:3128''"
    by (simp add: undated_record_def dict_get_def)
  have t1: "truthy (dict_get old_record ''address'')" by (simp add: a1)
  have t2: "truthy (dict_get undated_record ''address'')" by (simp add: a2)
  have l1: "is_proxy_alive sample_env (dict_get old_record ''address'')"
    by (simp add: a1 is_proxy_alive_def sample_env_def)
  have l2: "\<not> is_proxy_alive sample_env (dict_get undated_record ''address'')"
    by (simp add: a2 is_proxy_alive_def sample_env_def)
  have dr: "delete_reply sample_env Working ''k2'' = Inr 200" by (simp add: sample_env_def)
  from delete_iff_probe_fails[OF d m1 t1 r, of "[0, 1]"] delete_iff_probe_fails[OF d m2 t2 r, of "[0, 1]"]
    l1 l2 dr
  show ?thesis by blast
qed

section \<open>Errors stay inside the cycle\<close>

lemma existing_of_failed:
  "read_reply e c \<noteq> Inr (200, None) \<Longrightarrow> existing_of (store_read e c w) = {}"
  by (auto simp add: existing_of_def store_read_def split: sum.splits option.splits prod.splits)

text \<open>
  Claim C8. A probe whose request raises (a timeout is an exception) reports the proxy as
  not alive; alive means status 200 and nothing else. A read of a collection that raises,
  that answers another status than 200 or whose body cannot be decoded gives
  \<^verbatim>\<open>get_existing_proxies\<close> the empty set, and makes the cleanup and the stability cycle
  end after the read with nothing else sent. Each of the three cycles returns normally
  for every environment, schedule and world, and when \<^verbatim>\<open>gather\<close> returns every task of
  the fetch and of the cleanup loop has finished.
\<close>

theorem no_error_escapes_a_cycle:
  "(is_proxy_alive e a \<longleftrightarrow> probe_reply e a = Inr 200)
   \<and> (\<forall>x. probe_reply e a = Inl x \<longrightarrow> \<not> is_proxy_alive e a)
   \<and> (read_reply e c \<noteq> Inr (200, None) \<longrightarrow> fst (get_existing_proxies e c w) = {})
   \<and> (read_reply e Working \<noteq> Inr (200, None) \<longrightarrow>
        cleanup_cycle e sched w = Normal (sending (Get_json Working) w)
        \<and> stability_cycle thr e w = Normal (sending (Get_json Working) w))
   \<and> (\<exists>w'. fetch_and_store_cycle e sched w = Normal w')
   \<and> (\<exists>w'. cleanup_cycle e sched w = Normal w')
   \<and> (\<exists>w'. stability_cycle thr e w = Normal w')
   \<and> (\<exists>w'. stability_monitor_cycle e w = Normal w')
   \<and> (\<forall>t \<in> set (fst (gather (validate_step e) v_waiting sched
                        (map V_start cands, \<lparr>mem = known, in_flight = 0, world = w\<rparr>))). t = V_done)
   \<and> (\<forall>t \<in> set (fst (gather (check_step e) c_waiting sched
                        (cleanup_tasks data, \<lparr>mem = (), in_flight = 0, world = w\<rparr>))). t = C_done)"
proof -
  have 1: "is_proxy_alive e a \<longleftrightarrow> probe_reply e a = Inr 200"
    by (simp add: is_proxy_alive_def split: sum.splits)
  have 2: "\<forall>x. probe_reply e a = Inl x \<longrightarrow> \<not> is_proxy_alive e a"
    by (simp add: is_proxy_alive_def)
  have 3: "read_reply e c \<noteq> Inr (200, None) \<longrightarrow> fst (get_existing_proxies e c w) = {}"
    by (simp add: http_defs existing_of_failed)
  have 4: "cleanup_cycle e sched w = Normal (sending (Get_json Working) w)
           \<and> stability_cycle thr e w = Normal (sending (Get_json Working) w)"
    if f: "read_reply e Working \<noteq> Inr (200, None)"
  proof -
    have "state_of (stability_body thr e w) = sending (Get_json Working) w"
      using f unfolding stability_body_def http_defs store_read_def
      by (auto split: sum.splits option.splits prod.splits)
    then show ?thesis using f
      by (simp add: cleanup_cycle_Normal cleanup_body_skip stability_cycle_Normal)
  qed
  have 5: "\<forall>t \<in> set (fst (gather (validate_step e) v_waiting sched
                        (map V_start cands, \<lparr>mem = known, in_flight = 0, world = w\<rparr>))). t = V_done"
    by (rule validate_gather_finished) simp
  have 6: "\<forall>t \<in> set (fst (gather (check_step e) c_waiting sched
                        (cleanup_tasks data, \<lparr>mem = (), in_flight = 0, world = w\<rparr>))). t = C_done"
    unfolding cleanup_tasks_pairs by (rule check_gather_finished) simp
  show ?thesis
    using 1 2 3 4 5 6
    by (simp add: fetch_cycle_Normal cleanup_cycle_Normal stability_cycle_Normal
        stability_monitor_cycle_def)
qed

theorem no_error_escapes_a_cycle_witness:
  "\<not> is_proxy_alive broken_env (PStr ''1.2.3.4:8080'')
   \<and> fst (get_existing_proxies broken_env Stable sample_world) = {}
   \<and> cleanup_cycle broken_env [] sample_world = Normal (sending (Get_json Working) sample_world)
   \<and> stability_cycle STABILITY_THRESHOLD broken_env sample_world
       = Normal (sending (Get_json Working) sample_world)"
proof -
  have p: "probe_reply broken_env (PStr ''1.2.3.4:8080'') = Inl TimeoutError"
    by (simp add: broken_env_def)
  have r: "read_reply broken_env c \<noteq> Inr (200, None)" for c
    by (simp add: broken_env_def)
  from no_error_escapes_a_cycle[of broken_env "PStr ''1.2.3.4:8080''" Stable sample_world "[]"
      STABILITY_THRESHOLD "[]" "{}" "[]"] p r
  show ?thesis by simp
qed

section \<open>The fetch loop: what is inserted\<close>

lemma validate_and_add_skip:
  "py_strip raw = [] \<or> PStr (py_strip raw) \<in> known \<Longrightarrow> validate_and_add e raw (known, w) = (known, w)"
  by (auto simp add: validate_and_add_def Let_def)

lemma validate_and_add_dead:
  "py_strip raw \<noteq> [] \<Longrightarrow> PStr (py_strip raw) \<notin> known \<Longrightarrow> \<not> is_proxy_alive e (PStr (py_strip raw))
   \<Longrightarrow> validate_and_add e raw (known, w) = (known, sending (Get_via (PStr (py_strip raw))) w)"
  by (simp add: validate_and_add_def Let_def)

lemma validate_and_add_alive:
  assumes "py_strip raw \<noteq> []" and "PStr (py_strip raw) \<notin> known" and "is_proxy_alive e (PStr (py_strip raw))"
  shows "validate_and_add e raw (known, w)
         = (if post_reply e Working (proxy_data (py_strip raw) (clock e (ticks w)) (clock e (Suc (ticks w)))) = Inr 200
            then insert (PStr (py_strip raw)) known else known,
            store_post e Working (proxy_data (py_strip raw) (clock e (ticks w)) (clock e (Suc (ticks w))))
              (sending (Post Working (proxy_data (py_strip raw) (clock e (ticks w)) (clock e (Suc (ticks w)))))
                 ((sending (Get_via (PStr (py_strip raw))) w)\<lparr>ticks := Suc (Suc (ticks w))\<rparr>)))"
  using assms by (auto simp add: validate_and_add_def Let_def http_defs split: sum.splits)

text \<open>The three steps of a task that finds a permit are \<^verbatim>\<open>validate_and_add\<close>.\<close>

lemma validate_steps_alone:
  assumes "in_flight s < CONCURRENCY_LIMIT"
  shows "thrice (validate_step e) (V_start raw, s)
         = (V_done, s\<lparr>mem := fst (validate_and_add e raw (mem s, world s)),
                       world := snd (validate_and_add e raw (mem s, world s))\<rparr>)"
proof (cases "py_strip raw = [] \<or> PStr (py_strip raw) \<in> mem s")
  case True
  then show ?thesis using assms
    by (auto simp add: thrice_def validate_and_add_skip Let_def)
next
  case False
  show ?thesis
  proof (cases "is_proxy_alive e (PStr (py_strip raw))")
    case dead: False
    with False show ?thesis using assms
      by (simp add: thrice_def validate_and_add_dead Let_def release_def)
  next
    case True
    with False show ?thesis using assms
      by (auto simp add: thrice_def validate_and_add_alive Let_def release_def http_defs
               split: sum.splits)
  qed
qed

lemma validated_record_address:
  assumes "validated_record e cands known d"
  shows "\<exists>a. dict_get d ''address'' = PStr a \<and> a \<noteq> [] \<and> PStr a \<notin> known \<and> is_proxy_alive e (PStr a)"
  using assms by (auto simp add: validated_record_def candidate_ok_def)

lemma fetch_cycle_added:
  "\<forall>(k, d) \<in> set (added (working w) (working (state_of (fetch_and_store_cycle e sched w)))).
     validated_record e (cycle_candidates e) (cycle_known e w) d"
  using fetch_cycle_effect[of e sched w] by (auto simp add: fetch_cycle_Normal dest: extends_added)

lemma fetch_cycle_posts:
  assumes "Post c d \<in> set (requests_of w (state_of (fetch_and_store_cycle e sched w)))"
  shows "c = Working \<and> validated_record e (cycle_candidates e) (cycle_known e w) d"
proof -
  have "extends (sent w) (sent (state_of (fetch_and_store_cycle e sched w))) (fetch_cycle_request e w)"
    using fetch_cycle_effect[of e sched w] by (simp add: fetch_cycle_Normal)
  from requests_of_extends[OF this] assms show ?thesis
    by (auto simp add: fetch_cycle_request_def fetch_request_def)
qed

text \<open>
  Claim C2. When the probe of a candidate fails, or the candidate is blank, or its
  address is in the known set the cycle read, \<^verbatim>\<open>validate_and_add\<close> leaves the working
  set and the known set as they are and sends no POST; and in a whole cycle, whatever
  the order in which the event loop resumes the tasks, no record with that address is
  inserted and no POST carries it. Every record a cycle inserts has a non-blank address
  that was not in the known set and whose probe succeeded.
\<close>

theorem failed_probe_never_inserted:
  assumes "\<not> is_proxy_alive e (PStr (py_strip raw)) \<or> py_strip raw = []
           \<or> PStr (py_strip raw) \<in> cycle_known e w"
  shows "fst (validate_and_add e raw (cycle_known e w, w1)) = cycle_known e w
       \<and> working (snd (validate_and_add e raw (cycle_known e w, w1))) = working w1
       \<and> (\<forall>c d. Post c d \<notin> set (requests_of w1 (snd (validate_and_add e raw (cycle_known e w, w1)))))
       \<and> (\<forall>(k, d) \<in> set (added (working w) (working (state_of (fetch_and_store_cycle e sched w)))).
             dict_get d ''address'' \<noteq> PStr (py_strip raw))
       \<and> (\<forall>c d. Post c d \<in> set (requests_of w (state_of (fetch_and_store_cycle e sched w)))
             \<longrightarrow> dict_get d ''address'' \<noteq> PStr (py_strip raw))
       \<and> (\<forall>(k, d) \<in> set (added (working w) (working (state_of (fetch_and_store_cycle e sched w)))).
             \<exists>a. dict_get d ''address'' = PStr a \<and> a \<noteq> [] \<and> PStr a \<notin> cycle_known e w
                \<and> is_proxy_alive e (PStr a))"
proof -
  let ?a = "py_strip raw"
  let ?k = "cycle_known e w"
  have seq: "validate_and_add e raw (?k, w1) = (?k, w1)
             \<or> validate_and_add e raw (?k, w1) = (?k, sending (Get_via (PStr ?a)) w1)"
    using assms validate_and_add_skip[of raw ?k e w1] validate_and_add_dead[of raw ?k e w1]
    by blast
  have 1: "fst (validate_and_add e raw (?k, w1)) = ?k" using seq by auto
  have 2: "working (snd (validate_and_add e raw (?k, w1))) = working w1" using seq by auto
  have 3: "\<forall>c d. Post c d \<notin> set (requests_of w1 (snd (validate_and_add e raw (?k, w1))))"
    using seq by (auto simp add: requests_of_def)
  have no: "dict_get d ''address'' \<noteq> PStr ?a" if "validated_record e (cycle_candidates e) ?k d" for d
    using validated_record_address[OF that] assms by auto
  have 4: "\<forall>(k, d) \<in> set (added (working w) (working (state_of (fetch_and_store_cycle e sched w)))).
             dict_get d ''address'' \<noteq> PStr ?a"
    using fetch_cycle_added[of w e sched] no by auto
  have 5: "\<forall>c d. Post c d \<in> set (requests_of w (state_of (fetch_and_store_cycle e sched w)))
             \<longrightarrow> dict_get d ''address'' \<noteq> PStr ?a"
    using fetch_cycle_posts[of _ _ w e sched] no by blast
  have 6: "\<forall>(k, d) \<in> set (added (working w) (working (state_of (fetch_and_store_cycle e sched w)))).
             \<exists>a. dict_get d ''address'' = PStr a \<and> a \<noteq> [] \<and> PStr a \<notin> ?k \<and> is_proxy_alive e (PStr a)"
    using fetch_cycle_added[of w e sched] validated_record_address by blast
  show ?thesis using 1 2 3 4 5 6 by blast
qed

lemma fresh_key_Nil: "fresh_key [] = ''-''"
  by (simp add: fresh_key_def)

lemma py_strip_bad_entry: "py_strip ''bad:entry'' = ''bad:entry''"
  by (simp add: py_strip_def py_isspace_def)

lemma py_strip_address: "py_strip ''1.2.3.4:8080'' = ''1.2.3.4:8080''"
  by (simp add: py_strip_def py_isspace_def)

theorem failed_probe_never_inserted_witness:
  "fst (validate_and_add sample_env ''bad:entry'' (cycle_known sample_env empty_world, empty_world))
     = cycle_known sample_env empty_world
   \<and> working (snd (validate_and_add sample_env ''bad:entry'' (cycle_known sample_env empty_world, empty_world)))
     = working empty_world
   \<and> list_all (\<lambda>(k, d). dict_get d ''address'' \<noteq> PStr ''bad:entry'')
       (added (working empty_world)
          (working (state_of (fetch_and_store_cycle sample_env [0, 1, 2] empty_world))))"
proof -
  have h: "\<not> is_proxy_alive sample_env (PStr (py_strip ''bad:entry''))"
    by (simp add: py_strip_bad_entry is_proxy_alive_def sample_env_def)
  from failed_probe_never_inserted[of sample_env "''bad:entry''" empty_world empty_world "[0, 1, 2]"] h
  show ?thesis unfolding list_all_iff py_strip_bad_entry by blast
qed

text \<open>
  Claim C7, as the code has it. A record inserted by the fetch loop has the status
  \<^verbatim>\<open>active\<close>; its \<^verbatim>\<open>last_checked\<close> is one reading of the clock and its \<^verbatim>\<open>created_at\<close> is
  the next reading (two calls of \<^verbatim>\<open>time.time()\<close>, made one after the other when the
  record is built), so the two fields are equal exactly when the two readings are. For
  the task alone, the readings are the two that follow the successful probe.
\<close>

theorem inserted_record_timestamps:
  "(\<forall>(k, d) \<in> set (added (working w) (working (state_of (fetch_and_store_cycle e sched w)))).
      \<exists>a n. d = proxy_data a (clock e n) (clock e (Suc n))
           \<and> dict_get d ''status'' = PStr ''active''
           \<and> dict_get d ''last_checked'' = PNum (clock e n)
           \<and> dict_get d ''created_at'' = PNum (clock e (Suc n))
           \<and> (dict_get d ''created_at'' = dict_get d ''last_checked''
                \<longleftrightarrow> clock e (Suc n) = clock e n))
   \<and> (py_strip raw \<noteq> [] \<and> PStr (py_strip raw) \<notin> known \<and> is_proxy_alive e (PStr (py_strip raw)) \<longrightarrow>
        requests_of w (snd (validate_and_add e raw (known, w)))
          = [Get_via (PStr (py_strip raw)),
             Post Working (proxy_data (py_strip raw) (clock e (ticks w)) (clock e (Suc (ticks w))))]
        \<and> added (working w) (working (snd (validate_and_add e raw (known, w))))
          = (if post_reply e Working (proxy_data (py_strip raw) (clock e (ticks w)) (clock e (Suc (ticks w)))) = Inr 200
             then [(fresh_key (working w), proxy_data (py_strip raw) (clock e (ticks w)) (clock e (Suc (ticks w))))]
             else []))"
proof -
  have 1: "\<forall>(k, d) \<in> set (added (working w) (working (state_of (fetch_and_store_cycle e sched w)))).
      \<exists>a n. d = proxy_data a (clock e n) (clock e (Suc n))
           \<and> dict_get d ''status'' = PStr ''active''
           \<and> dict_get d ''last_checked'' = PNum (clock e n)
           \<and> dict_get d ''created_at'' = PNum (clock e (Suc n))
           \<and> (dict_get d ''created_at'' = dict_get d ''last_checked''
                \<longleftrightarrow> clock e (Suc n) = clock e n)"
    using fetch_cycle_added[of w e sched] by (fastforce simp add: validated_record_def)
  have 2: "requests_of w (snd (validate_and_add e raw (known, w)))
          = [Get_via (PStr (py_strip raw)),
             Post Working (proxy_data (py_strip raw) (clock e (ticks w)) (clock e (Suc (ticks w))))]
        \<and> added (working w) (working (snd (validate_and_add e raw (known, w))))
          = (if post_reply e Working (proxy_data (py_strip raw) (clock e (ticks w)) (clock e (Suc (ticks w)))) = Inr 200
             then [(fresh_key (working w), proxy_data (py_strip raw) (clock e (ticks w)) (clock e (Suc (ticks w))))]
             else [])"
    if "py_strip raw \<noteq> []" "PStr (py_strip raw) \<notin> known" "is_proxy_alive e (PStr (py_strip raw))"
    using validate_and_add_alive[OF that, of w] by (simp add: requests_of_def added_def)
  show ?thesis using 1 2 by blast
qed

theorem inserted_record_timestamps_witness:
  "requests_of empty_world (snd (validate_and_add sample_env ''1.2.3.4:8080'' ({}, empty_world)))
     = [Get_via (PStr ''1.2.3.4:8080''), Post Working (proxy_data ''1.2.3.4:8080'' 1000 (1000 + 1 / 1000000))]
   \<and> added (working empty_world) (working (snd (validate_and_add sample_env ''1.2.3.4:8080'' ({}, empty_world))))
     = [(''-'', proxy_data ''1.2.3.4:8080'' 1000 (1000 + 1 / 1000000))]"
proof -
  have h: "py_strip ''1.2.3.4:8080'' \<noteq> [] \<and> PStr (py_strip ''1.2.3.4:8080'') \<notin> {}
           \<and> is_proxy_alive sample_env (PStr (py_strip ''1.2.3.4:8080''))"
    by (simp add: py_strip_address is_proxy_alive_def sample_env_def)
  have c: "clock sample_env (ticks empty_world) = 1000" "clock sample_env (Suc (ticks empty_world)) = 1000 + 1 / 1000000"
    by (simp_all add: sample_env_def empty_world_def)
  have p: "post_reply sample_env Working d = Inr 200" for d by (simp add: sample_env_def)
  have f: "fresh_key (working empty_world) = ''-''" by (simp add: empty_world_def fresh_key_def)
  from inserted_record_timestamps[of empty_world sample_env "[]" "''1.2.3.4:8080''" "{}"] h
  show ?thesis by (simp add: py_strip_address c p f)
qed

text \<open>
  The claim as the specification words it fails: with the clock of the sample
  environment the record inserted for \<^verbatim>\<open>1.2.3.4:8080\<close> has \<^verbatim>\<open>last_checked\<close> 1000 and
  \<^verbatim>\<open>created_at\<close> one microsecond later.
\<close>

theorem created_at_differs_from_last_checked:
  "working (snd (validate_and_add sample_env ''1.2.3.4:8080'' ({}, empty_world)))
     = [(''-'', proxy_data ''1.2.3.4:8080'' 1000 (1000 + 1 / 1000000))]
   \<and> dict_get (proxy_data ''1.2.3.4:8080'' 1000 (1000 + 1 / 1000000)) ''last_checked'' = PNum 1000
   \<and> dict_get (proxy_data ''1.2.3.4:8080'' 1000 (1000 + 1 / 1000000)) ''created_at''
       = PNum (1000 + 1 / 1000000)
   \<and> dict_get (proxy_data ''1.2.3.4:8080'' 1000 (1000 + 1 / 1000000)) ''created_at''
       \<noteq> dict_get (proxy_data ''1.2.3.4:8080'' 1000 (1000 + 1 / 1000000)) ''last_checked''"
proof -
  have h: "py_strip ''1.2.3.4:8080'' \<noteq> []" "PStr (py_strip ''1.2.3.4:8080'') \<notin> {}"
    "is_proxy_alive sample_env (PStr (py_strip ''1.2.3.4:8080''))"
    by (simp_all add: py_strip_address is_proxy_alive_def sample_env_def)
  have c: "clock sample_env (ticks empty_world) = 1000" "clock sample_env (Suc (ticks empty_world)) = 1000 + 1 / 1000000"
    by (simp_all add: sample_env_def empty_world_def)
  have p: "post_reply sample_env Working d = Inr 200" for d by (simp add: sample_env_def)
  have f: "fresh_key (working empty_world) = ''-''" by (simp add: empty_world_def fresh_key_def)
  have w: "working empty_world = []" by (simp add: empty_world_def)
  show ?thesis
    unfolding validate_and_add_alive[OF h]
    by (simp add: py_strip_address c p w fresh_key_Nil)
qed

section \<open>The three loops together\<close>

lemma fetch_cycle_requests:
  "\<forall>r \<in> set (requests_of w (state_of (fetch_and_store_cycle e sched w))).
     r = Get_source \<or> r = Get_json Working \<or> (\<exists>a. r = Get_via (PStr a) \<and> a \<noteq> [])
     \<or> (\<exists>d. r = Post Working d)"
proof -
  have "extends (sent w) (sent (state_of (fetch_and_store_cycle e sched w))) (fetch_cycle_request e w)"
    using fetch_cycle_effect[of e sched w] by (simp add: fetch_cycle_Normal)
  from requests_of_extends[OF this] show ?thesis
    by (auto simp add: fetch_cycle_request_def fetch_request_def candidate_ok_def)
qed

lemma cleanup_cycle_requests:
  "\<forall>r \<in> set (requests_of w (state_of (cleanup_cycle e sched w))).
     r = Get_json Working
     \<or> (\<exists>k v. r = Get_via (dict_get v ''address'') \<and> (k, v) \<in> set (working w) \<and> truthy (dict_get v ''address''))
     \<or> (\<exists>k v. r = Delete Working k \<and> (k, v) \<in> set (working w) \<and> truthy (dict_get v ''address''))"
proof -
  have "extends (sent w) (sent (state_of (cleanup_cycle e sched w)))
          (cleanup_request e (cleanup_pairs (working w)))"
    using cleanup_cycle_effect[of e w sched] by (simp add: cleanup_cycle_Normal cleanup_ok_def)
  from requests_of_extends[OF this] show ?thesis
    unfolding cleanup_request_def
    by (auto dest!: bspec dest: cleanup_pairs_mem cleanup_pairs_truthy) (metis cleanup_pairs_mem cleanup_pairs_truthy)+
qed

lemma stability_cycle_requests:
  "\<forall>r \<in> set (requests_of w (state_of (stability_cycle thr e w))).
     r = Get_json Working \<or> r = Get_json Stable \<or> (\<exists>d. r = Post Stable d)"
proof -
  have "extends (sent w) (sent (state_of (stability_cycle thr e w)))
          (stability_request thr (clock e (ticks w)) (working w))"
    using stability_body_effect[of thr e w] by (simp add: stability_cycle_Normal)
  from requests_of_extends[OF this] show ?thesis
    by (auto simp add: stability_request_def)
qed

lemma cycle_sent_extends:
  "extends (sent w) (sent (state_of (fetch_and_store_cycle e sched w))) (\<lambda>r. True)"
  "extends (sent w) (sent (state_of (cleanup_cycle e sched w))) (\<lambda>r. True)"
  "extends (sent w) (sent (state_of (stability_cycle thr e w))) (\<lambda>r. True)"
  using fetch_cycle_effect[of e sched w] cleanup_cycle_effect[of e w sched] stability_body_effect[of thr e w]
  by (auto simp add: fetch_cycle_Normal cleanup_cycle_Normal stability_cycle_Normal cleanup_ok_def
           elim: extends_mono)

lemma extends_requests:
  assumes "extends (sent w) (sent w') (\<lambda>r. True)" and "\<forall>r \<in> set (requests_of w w'). P r"
  shows "extends (sent w) (sent w') P"
  using assms unfolding extends_def requests_of_def added_def by auto

lemma run_cycle_stable:
  "extends (stable w) (stable (run_cycle act w)) (\<lambda>x. True)
   \<and> extends (sent w) (sent (run_cycle act w)) (\<lambda>r. \<forall>c k. r = Delete c k \<longrightarrow> c = Working)"
proof (cases act)
  case (Fetch e sched)
  have "stable (run_cycle act w) = stable w"
    using fetch_cycle_effect[of e sched w] Fetch by (simp add: fetch_cycle_Normal)
  moreover have "extends (sent w) (sent (run_cycle act w)) (\<lambda>r. \<forall>c k. r = Delete c k \<longrightarrow> c = Working)"
    unfolding Fetch run_cycle.simps
    by (rule extends_requests[OF cycle_sent_extends(1)]) (use fetch_cycle_requests[of w e sched] in auto)
  ultimately show ?thesis by simp
next
  case (Cleanup e sched)
  have "stable (run_cycle act w) = stable w"
    using cleanup_cycle_effect[of e w sched] Cleanup by (simp add: cleanup_cycle_Normal cleanup_ok_def)
  moreover have "extends (sent w) (sent (run_cycle act w)) (\<lambda>r. \<forall>c k. r = Delete c k \<longrightarrow> c = Working)"
    unfolding Cleanup run_cycle.simps
    by (rule extends_requests[OF cycle_sent_extends(2)]) (use cleanup_cycle_requests[of w e sched] in auto)
  ultimately show ?thesis by simp
next
  case (Monitor e)
  have "extends (stable w) (stable (run_cycle act w)) (\<lambda>x. True)"
    using stability_body_effect[of STABILITY_THRESHOLD e w] Monitor
    by (auto simp add: stability_monitor_cycle_def stability_cycle_Normal elim: extends_mono)
  moreover have "extends (sent w) (sent (run_cycle act w)) (\<lambda>r. \<forall>c k. r = Delete c k \<longrightarrow> c = Working)"
    unfolding Monitor run_cycle.simps stability_monitor_cycle_def
    by (rule extends_requests[OF cycle_sent_extends(3)])
       (use stability_cycle_requests[of w STABILITY_THRESHOLD e] in auto)
  ultimately show ?thesis by simp
qed

lemma run_system_stable:
  "extends (stable w) (stable (run_system acts w)) (\<lambda>x. True)
   \<and> extends (sent w) (sent (run_system acts w)) (\<lambda>r. \<forall>c k. r = Delete c k \<longrightarrow> c = Working)"
  unfolding run_system_def
proof (induction acts arbitrary: w)
  case Nil
  show ?case by simp
next
  case (Cons act acts)
  from run_cycle_stable[of w act] Cons.IH[of "run_cycle act w"]
  show ?case by (auto intro: extends_trans)
qed

text \<open>
  Claim C9. In every execution the stable set only grows: what it holds at any moment is
  still there, in place, after any further cycles of the three loops. Every DELETE sent
  in an execution goes to the working set; the fetch loop and the stability monitor send
  none, and a cleanup cycle sends them only for keys of the working set it read.
\<close>

theorem stable_record_never_deleted:
  "extends (stable w) (stable (run_system acts w)) (\<lambda>x. True)
   \<and> (\<forall>r \<in> set (requests_of w (run_system acts w)). \<forall>c k. r = Delete c k \<longrightarrow> c = Working)
   \<and> (\<forall>c k. Delete c k \<in> set (requests_of w (state_of (cleanup_cycle e sched w)))
         \<longrightarrow> c = Working \<and> k \<in> fst ` set (working w))
   \<and> (\<forall>c k. Delete c k \<notin> set (requests_of w (state_of (fetch_and_store_cycle e sched w))))
   \<and> (\<forall>c k. Delete c k \<notin> set (requests_of w (state_of (stability_cycle thr e w))))"
proof -
  have 1: "extends (stable w) (stable (run_system acts w)) (\<lambda>x. True)"
    and s: "extends (sent w) (sent (run_system acts w)) (\<lambda>r. \<forall>c k. r = Delete c k \<longrightarrow> c = Working)"
    using run_system_stable[of w acts] by simp_all
  have 2: "\<forall>r \<in> set (requests_of w (run_system acts w)). \<forall>c k. r = Delete c k \<longrightarrow> c = Working"
    using requests_of_extends[OF s] .
  have 3: "\<forall>c k. Delete c k \<in> set (requests_of w (state_of (cleanup_cycle e sched w)))
         \<longrightarrow> c = Working \<and> k \<in> fst ` set (working w)"
    using cleanup_cycle_requests[of w e sched] by force
  have 4: "\<forall>c k. Delete c k \<notin> set (requests_of w (state_of (fetch_and_store_cycle e sched w)))"
    using fetch_cycle_requests[of w e sched] by auto
  have 5: "\<forall>c k. Delete c k \<notin> set (requests_of w (state_of (stability_cycle thr e w)))"
    using stability_cycle_requests[of w thr e] by auto
  show ?thesis using 1 2 3 4 5 by blast
qed

theorem stable_record_never_deleted_witness:
  "extends (stable (run_system [Monitor sample_env] sample_world))
     (stable (run_system sample_run (run_system [Monitor sample_env] sample_world))) (\<lambda>x. True)
   \<and> Delete Stable ''-'' \<notin> set (requests_of sample_world (run_system sample_run sample_world))
   \<and> Delete Stable ''-'' \<notin> set (requests_of sample_world (state_of (cleanup_cycle sample_env [0, 1] sample_world)))"
  using stable_record_never_deleted[of "run_system [Monitor sample_env] sample_world" sample_run
          sample_env "[0, 1]" STABILITY_THRESHOLD]
        stable_record_never_deleted[of sample_world sample_run sample_env "[0, 1]" STABILITY_THRESHOLD]
  by blast

lemma no_pair_for_falsy:
  assumes "distinct (map fst data)" and "(key, val) \<in> set data" and "\<not> truthy (dict_get val ''address'')"
  shows "(key, a) \<notin> set (cleanup_pairs data)"
proof
  assume p: "(key, a) \<in> set (cleanup_pairs data)"
  from cleanup_pairs_key_unique[OF assms(1,2) p] cleanup_pairs_truthy[OF p] assms(3)
  show False by simp
qed

lemma run_cycle_keeps:
  assumes d: "distinct (map fst (working w))" and m: "(key, val) \<in> set (working w)"
    and f: "\<not> truthy (dict_get val ''address'')"
  shows "distinct (map fst (working (run_cycle act w)))
       \<and> (key, val) \<in> set (working (run_cycle act w))
       \<and> extends (sent w) (sent (run_cycle act w))
           (\<lambda>r. r \<noteq> Delete Working key \<and> r \<noteq> Get_via (dict_get val ''address''))"
proof (cases act)
  case (Fetch e sched)
  let ?w' = "state_of (fetch_and_store_cycle e sched w)"
  from fetch_cycle_effect[of e sched w]
  have ex: "extends (working w) (working ?w') (\<lambda>(k, d). validated_record e (cycle_candidates e) (cycle_known e w) d)"
    and dd: "distinct (map fst (working ?w'))"
    using d by (simp_all add: fetch_cycle_Normal)
  have mm: "(key, val) \<in> set (working ?w')" using extends_set[OF ex] m by auto
  have "\<forall>r \<in> set (requests_of w ?w'). r \<noteq> Delete Working key \<and> r \<noteq> Get_via (dict_get val ''address'')"
    using fetch_cycle_requests[of w e sched] f by fastforce
  from extends_requests[OF cycle_sent_extends(1) this] dd mm Fetch show ?thesis by simp
next
  case (Cleanup e sched)
  let ?w' = "state_of (cleanup_cycle e sched w)"
  have ok: "cleanup_ok e (cleanup_pairs (working w)) w ?w'"
    using cleanup_cycle_effect[of e w sched] by (simp add: cleanup_cycle_Normal)
  have nd: "key \<notin> dead_keys e (cleanup_pairs (working w))"
    using no_pair_for_falsy[OF d m f] by (auto simp add: dead_keys_def)
  have dd: "distinct (map fst (working ?w'))" and mm: "(key, val) \<in> set (working ?w')"
    using ok d m nd by (auto simp add: cleanup_ok_def)
  have "\<forall>r \<in> set (requests_of w ?w'). r \<noteq> Delete Working key \<and> r \<noteq> Get_via (dict_get val ''address'')"
  proof
    fix r assume "r \<in> set (requests_of w ?w')"
    with cleanup_cycle_requests[of w e sched]
    consider "r = Get_json Working"
      | v where "r = Get_via (dict_get v ''address'')" "truthy (dict_get v ''address'')"
      | k v where "r = Delete Working k" "(k, v) \<in> set (working w)" "truthy (dict_get v ''address'')"
      by blast
    then show "r \<noteq> Delete Working key \<and> r \<noteq> Get_via (dict_get val ''address'')"
    proof cases
      case 1
      then show ?thesis by simp
    next
      case 2
      then show ?thesis using f by auto
    next
      case 3
      have "k \<noteq> key" using 3(2,3) d m f by (auto dest: distinct_keys_unique)
      then show ?thesis using 3(1) by simp
    qed
  qed
  from extends_requests[OF cycle_sent_extends(2) this] dd mm Cleanup show ?thesis by simp
next
  case (Monitor e)
  let ?w' = "state_of (stability_cycle STABILITY_THRESHOLD e w)"
  have same: "working ?w' = working w"
    using stability_body_effect[of STABILITY_THRESHOLD e w] by (simp add: stability_cycle_Normal)
  have "\<forall>r \<in> set (requests_of w ?w'). r \<noteq> Delete Working key \<and> r \<noteq> Get_via (dict_get val ''address'')"
    using stability_cycle_requests[of w STABILITY_THRESHOLD e] by fastforce
  from extends_requests[OF cycle_sent_extends(3) this] same d m Monitor show ?thesis
    by (simp add: stability_monitor_cycle_def)
qed

lemma run_system_keeps:
  assumes "distinct (map fst (working w))" and "(key, val) \<in> set (working w)"
    and "\<not> truthy (dict_get val ''address'')"
  shows "(key, val) \<in> set (working (run_system acts w))
       \<and> extends (sent w) (sent (run_system acts w))
           (\<lambda>r. r \<noteq> Delete Working key \<and> r \<noteq> Get_via (dict_get val ''address''))"
  using assms unfolding run_system_def
proof (induction acts arbitrary: w)
  case Nil
  then show ?case by simp
next
  case (Cons act acts)
  from run_cycle_keeps[OF Cons.prems, of act]
  have 1: "distinct (map fst (working (run_cycle act w)))" "(key, val) \<in> set (working (run_cycle act w))"
    and e1: "extends (sent w) (sent (run_cycle act w))
           (\<lambda>r. r \<noteq> Delete Working key \<and> r \<noteq> Get_via (dict_get val ''address''))"
    by simp_all
  from Cons.IH[OF 1 Cons.prems(3)] e1 show ?case by (auto intro: extends_trans)
qed

text \<open>
  Claim C10. An entry of the working set whose record has no address, or an empty one,
  gets no task in a cleanup cycle (keys of the working set distinct): it is not among
  the pairs the cycle scans. Through any further cycles of the three loops it stays in
  the working set as it is, no DELETE of its key is sent, and no probe is sent for its
  address value.
\<close>

theorem addressless_entry_stays:
  assumes "distinct (map fst (working w))"
    and "(key, val) \<in> set (working w)"
    and "\<not> truthy (dict_get val ''address'')"
  shows "(\<forall>a. (key, a) \<notin> set (cleanup_pairs (working w)))
       \<and> (\<forall>a. C_start key a \<notin> set (cleanup_tasks (working w)))
       \<and> (key, val) \<in> set (working (state_of (cleanup_cycle e sched w)))
       \<and> Delete Working key \<notin> set (requests_of w (state_of (cleanup_cycle e sched w)))
       \<and> Get_via (dict_get val ''address'') \<notin> set (requests_of w (state_of (cleanup_cycle e sched w)))
       \<and> (key, val) \<in> set (working (run_system acts w))
       \<and> Delete Working key \<notin> set (requests_of w (run_system acts w))
       \<and> Get_via (dict_get val ''address'') \<notin> set (requests_of w (run_system acts w))"
proof -
  have 1: "\<forall>a. (key, a) \<notin> set (cleanup_pairs (working w))"
    using no_pair_for_falsy[OF assms] by simp
  have 2: "\<forall>a. C_start key a \<notin> set (cleanup_tasks (working w))"
    using 1 by (auto simp add: cleanup_tasks_pairs)
  have sys: "(key, val) \<in> set (working (run_system acts w))
       \<and> Delete Working key \<notin> set (requests_of w (run_system acts w))
       \<and> Get_via (dict_get val ''address'') \<notin> set (requests_of w (run_system acts w))" for acts
    using run_system_keeps[OF assms, of acts] by (auto dest: requests_of_extends)
  have one: "run_system [Cleanup e sched] w = state_of (cleanup_cycle e sched w)"
    by (simp add: run_system_def)
  show ?thesis using 1 2 sys[of acts] sys[of "[Cleanup e sched]"] unfolding one by blast
qed

theorem addressless_entry_stays_witness:
  "(''k3'', addressless_record) \<in> set (working (state_of (cleanup_cycle sample_env [0, 1] sample_world)))
   \<and> Delete Working ''k3'' \<notin> set (requests_of sample_world (state_of (cleanup_cycle sample_env [0, 1] sample_world)))
   \<and> (''k3'', addressless_record) \<in> set (working (run_system sample_run sample_world))
   \<and> Delete Working ''k3'' \<notin> set (requests_of sample_world (run_system sample_run sample_world))
   \<and> Get_via PNone \<notin> set (requests_of sample_world (run_system sample_run sample_world))"
proof -
  have d: "distinct (map fst (working sample_world))" by (simp add: sample_world_def)
  have m: "(''k3'', addressless_record) \<in> set (working sample_world)" by (simp add: sample_world_def)
  have a: "dict_get addressless_record ''address'' = PNone"
    by (simp add: addressless_record_def dict_get_def)
  have f: "\<not> truthy (dict_get addressless_record ''address'')" by (simp add: a)
  from addressless_entry_stays[OF d m f, of sample_env "[0, 1]" sample_run]
  show ?thesis by (simp add: a)
qed

section \<open>Promotion twice\<close>

text \<open>
  Claim C4. Let the store serve both reads and accept the POSTs of two promotion cycles,
  let every record of the working set have a \<^verbatim>\<open>created_at\<close> that is a number in the
  range of the floats, or none, and let
  the working set hold a record with an address whose age at the first scan is at least
  the threshold, for which the stable set has no record yet. Then the first cycle
  returns with exactly one record for that address in the stable set, also when several
  entries of the working set carry the address, and so does the second cycle, run in the
  world the first one left; neither changes the working set.
\<close>

theorem promotion_twice_one_record:
  assumes "store_up e1" and "store_up e2"
    and "\<forall>(k, v) \<in> set (working w). numeric_created_at v"
    and "(key, val) \<in> set (working w)"
    and "age_of (clock e1 (ticks w)) val = Inr age" and "thr \<le> age"
    and "truthy (dict_get val ''address'')"
    and "count_address (dict_get val ''address'') (stable w) = 0"
  shows "count_address (dict_get val ''address'') (stable (state_of (stability_cycle thr e1 w))) = 1
       \<and> count_address (dict_get val ''address'')
           (stable (state_of (stability_cycle thr e2 (state_of (stability_cycle thr e1 w))))) = 1
       \<and> working (state_of (stability_cycle thr e1 w)) = working w
       \<and> working (state_of (stability_cycle thr e2 (state_of (stability_cycle thr e1 w)))) = working w"
proof -
  let ?a = "dict_get val ''address''"
  have ne: "working w \<noteq> []" using assms(4) by auto
  from stability_cycle_count[OF assms(1) ne assms(3), of thr ?a] obtain w1 where
    c1: "stability_cycle thr e1 w = Normal w1" and k1: "working w1 = working w"
    and n1: "count_address ?a (stable w1)
              = count_address ?a (stable w)
                + (if \<not> (truthy ?a \<and> 0 < count_address ?a (stable w))
                      \<and> ?a \<in> ripe_addresses thr (clock e1 (ticks w)) (working w) then 1 else 0)"
    by blast
  have ripe: "?a \<in> ripe_addresses thr (clock e1 (ticks w)) (working w)"
    using assms(4,5,6) by (rule ripe_addressesI)
  have one: "count_address ?a (stable w1) = 1" using n1 ripe assms(8) by simp
  have ne1: "working w1 \<noteq> []" and wt1: "\<forall>(k, v) \<in> set (working w1). numeric_created_at v"
    using k1 ne assms(3) by simp_all
  from stability_cycle_count[OF assms(2) ne1 wt1, of thr ?a] obtain w2 where
    c2: "stability_cycle thr e2 w1 = Normal w2" and k2: "working w2 = working w1"
    and n2: "count_address ?a (stable w2)
              = count_address ?a (stable w1)
                + (if \<not> (truthy ?a \<and> 0 < count_address ?a (stable w1))
                      \<and> ?a \<in> ripe_addresses thr (clock e2 (ticks w1)) (working w1) then 1 else 0)"
    by blast
  have two: "count_address ?a (stable w2) = 1" using n2 one assms(7) by simp
  show ?thesis using c1 c2 k1 k2 one two by simp
qed

theorem promotion_twice_one_record_witness:
  "count_address (PStr ''1.2.3.4:8080'')
     (stable (state_of (stability_cycle STABILITY_THRESHOLD sample_env twin_world))) = 1
   \<and> count_address (PStr ''1.2.3.4:8080'')
       (stable (state_of (stability_cycle STABILITY_THRESHOLD sample_env
                  (state_of (stability_cycle STABILITY_THRESHOLD sample_env twin_world))))) = 1"
proof -
  have up: "store_up sample_env" by (simp add: store_up_def sample_env_def)
  have n: "numeric_created_at old_record"
    by (simp add: numeric_created_at_def old_record_def dict_get_default_def)
  have wt: "\<forall>(k, v) \<in> set (working twin_world). numeric_created_at v"
    by (simp add: twin_world_def n)
  have m: "(''k1'', old_record) \<in> set (working twin_world)" by (simp add: twin_world_def)
  have a: "age_of (clock sample_env (ticks twin_world)) old_record = Inr 700"
    by (simp add: age_of_def old_record_def dict_get_default_def sample_env_def twin_world_def)
  have t: "STABILITY_THRESHOLD \<le> 700" by (simp add: STABILITY_THRESHOLD_def)
  have ad: "dict_get old_record ''address'' = PStr ''1.2.3.4:8080''"
    by (simp add: old_record_def dict_get_def)
  have tr: "truthy (dict_get old_record ''address'')" by (simp add: ad)
  have z: "count_address (dict_get old_record ''address'') (stable twin_world) = 0"
    by (simp add: twin_world_def count_address_def)
  from promotion_twice_one_record[OF up up wt m a t tr z]
  show ?thesis by (simp add: ad)
qed

text \<open>
  The address has to be a value \<^verbatim>\<open>get_existing_proxies\<close> keeps: an old record without
  address is promoted by every cycle, since the stable records made from it never enter
  the known-stable snapshot of a later cycle.
\<close>

lemma addressless_old_record_promoted_again:
  "count_address PNone
     (stable (state_of (stability_cycle STABILITY_THRESHOLD sample_env
                (state_of (stability_cycle STABILITY_THRESHOLD sample_env
                   \<lparr>working = [(''k5'', [(''created_at'', PNum 300)])], stable = [], sent = [], ticks = 0\<rparr>))))) = 2"
  by code_simp

section \<open>Two tasks for one address\<close>

text \<open>
  Claim C1 fails on the code. The lock covers the membership test alone: the task
  leaves it before the probe, and the address enters the known set only after the POST
  has been answered. With the bulk list of the sample environment (the address
  \<^verbatim>\<open>1.2.3.4:8080\<close> twice, not known at the start of the cycle) and the three tasks
  each resumed once before any of them gets its answer, both tasks for the address pass
  the test, both probes succeed and the working set receives two records for it. When
  the first task runs to its end before the third starts, it receives one.
\<close>

theorem duplicate_candidate_inserted_twice:
  "cycle_candidates sample_env = [''1.2.3.4:8080'', ''bad:entry'', ''1.2.3.4:8080'']
   \<and> cycle_known sample_env empty_world = {}
   \<and> count_address (PStr ''1.2.3.4:8080'')
        (working (state_of (fetch_and_store_cycle sample_env [0, 1, 2] empty_world))) = 2"
  by code_simp

lemma one_task_after_the_other_inserts_once:
  "count_address (PStr ''1.2.3.4:8080'')
     (working (state_of (fetch_and_store_cycle sample_env [0, 0, 0, 1, 1, 2] empty_world))) = 1"
  by code_simp

end
